theory Spec2Isabelle
  imports Complex_Main "HOL-Library.AList" "HOL-Library.Word"
begin

section \<open>JavaScript numbers\<close>

text \<open>
  A JavaScript number is an IEEE 754 binary64 value. The finite ones are reals, so the type
  \<open>number\<close> is \<open>real\<close>, and every arithmetic operator rounds its exact result to the nearest
  binary64 value, ties to even (\<open>fl\<close>). The exponent of a positive real is found by halving
  or doubling; it stops at \<open>- 1022\<close>, where the subnormal range begins and the spacing of the
  values no longer shrinks. NaN and the infinities are not modelled: no operation below
  divides by zero (the source guards both divisions of \<open>rgbToHsb\<close>) and no value comes near
  \<open>2 ^ 1024\<close>. A negative zero is the real \<open>0\<close>.
\<close>

type_synonym number = real

function expo_up :: "real \<Rightarrow> int \<Rightarrow> int" where
  "expo_up x n = (if x < 2 then n else expo_up (x / 2) (n + 1))"
  by pat_completeness auto
termination
proof (relation "measure (\<lambda>(x, n). nat \<lfloor>x\<rfloor>)")
  show "wf (measure (\<lambda>(x::real, n::int). nat \<lfloor>x\<rfloor>))" by simp
next
  fix x :: real and n :: int
  assume large: "\<not> x < 2"
  then have "\<lfloor>x / 2\<rfloor> < \<lfloor>x\<rfloor>" by linarith
  moreover have "0 < \<lfloor>x\<rfloor>" using large by linarith
  ultimately show "((x / 2, n + 1), (x, n)) \<in> measure (\<lambda>(x, n). nat \<lfloor>x\<rfloor>)"
    by simp
qed

function expo_down :: "real \<Rightarrow> int \<Rightarrow> int" where
  "expo_down x n = (if 1 \<le> x \<or> n \<le> - 1022 then n else expo_down (2 * x) (n - 1))"
  by pat_completeness auto
termination
  by (relation "measure (\<lambda>(x, n). nat (n + 1022))") auto

declare expo_up.simps [simp del] expo_down.simps [simp del]

definition exponent :: "real \<Rightarrow> int" where
  "exponent x = (if 1 \<le> x then expo_up x 0 else expo_down x 0)"

text \<open>Rounding to the nearest integer, ties to the even one.\<close>

definition rne :: "real \<Rightarrow> int" where
  "rne y = (let n = \<lfloor>y\<rfloor>; d = y - of_int n
            in if d < 1 / 2 then n else if 1 / 2 < d then n + 1
               else if even n then n else n + 1)"

text \<open>The binary64 value nearest to a real: 53 significant bits at the exponent of \<open>x\<close>.\<close>

definition fl :: "real \<Rightarrow> number" where
  "fl x = (if x = 0 then 0
           else let u = 2 powi (exponent \<bar>x\<bar> - 52)
                in sgn x * of_int (rne (\<bar>x\<bar> / u)) * u)"

definition js_add :: "number \<Rightarrow> number \<Rightarrow> number" where
  "js_add a c = fl (a + c)"

definition js_sub :: "number \<Rightarrow> number \<Rightarrow> number" where
  "js_sub a c = fl (a - c)"

definition js_mul :: "number \<Rightarrow> number \<Rightarrow> number" where
  "js_mul a c = fl (a * c)"

definition js_div :: "number \<Rightarrow> number \<Rightarrow> number" where
  "js_div a c = fl (a / c)"

text \<open>
  The remainder operator \<open>%\<close> truncates the quotient towards zero, so the result has the sign
  of the dividend; it is exact. \<open>Math.floor\<close> is exact, and \<open>Math.round\<close> is the nearest
  integer with ties towards plus infinity.
\<close>

definition js_trunc :: "real \<Rightarrow> int" where
  "js_trunc q = (if 0 \<le> q then \<lfloor>q\<rfloor> else \<lceil>q\<rceil>)"

definition js_rem :: "number \<Rightarrow> number \<Rightarrow> number" where
  "js_rem a c = a - c * of_int (js_trunc (a / c))"

definition Math_floor :: "number \<Rightarrow> int" where
  "Math_floor a = \<lfloor>a\<rfloor>"

definition Math_round :: "number \<Rightarrow> int" where
  "Math_round a = \<lfloor>a + 1 / 2\<rfloor>"

section \<open>Color model\<close>

text \<open>
  \<open>RGBColor\<close> has the fields \<open>r\<close>, \<open>g\<close>, \<open>b\<close> of the source under the names \<open>rgb_r\<close>,
  \<open>rgb_g\<close>, \<open>rgb_b\<close>; the channels are integers. \<open>HSBColor\<close> keeps its field names.
\<close>

record RGBColor =
  rgb_r :: int
  rgb_g :: int
  rgb_b :: int

record HSBColor =
  hue :: number
  saturation :: number
  brightness :: number

definition hsbToRgb :: "HSBColor \<Rightarrow> RGBColor" where
  "hsbToRgb color =
     (let h = js_div (hue color) 360;
          s = js_div (saturation color) 100;
          v = js_div (brightness color) 100;
          i = of_int (Math_floor (js_mul h 6));
          f = js_sub (js_mul h 6) i;
          p = js_mul v (js_sub 1 s);
          q = js_mul v (js_sub 1 (js_mul f s));
          t = js_mul v (js_sub 1 (js_mul (js_sub 1 f) s));
          k = js_rem i 6;
          (r', g', b') =
            (if k = 0 then (v, t, p)
             else if k = 1 then (q, v, p)
             else if k = 2 then (p, v, t)
             else if k = 3 then (p, q, v)
             else if k = 4 then (t, p, v)
             else if k = 5 then (v, p, q)
             else (0, 0, 0))
      in \<lparr>rgb_r = Math_round (js_mul r' 255),
          rgb_g = Math_round (js_mul g' 255),
          rgb_b = Math_round (js_mul b' 255)\<rparr>)"

definition rgbToHsb :: "RGBColor \<Rightarrow> HSBColor" where
  "rgbToHsb color =
     (let r' = js_div (of_int (rgb_r color)) 255;
          g' = js_div (of_int (rgb_g color)) 255;
          b' = js_div (of_int (rgb_b color)) 255;
          mx = max (max r' g') b';
          mn = min (min r' g') b';
          delta = js_sub mx mn;
          hue' =
            (if delta \<noteq> 0 then
               (let h0 = (if mx = r' then js_rem (js_div (js_sub g' b') delta) 6
                          else if mx = g' then js_add (js_div (js_sub b' r') delta) 2
                          else js_add (js_div (js_sub r' g') delta) 4);
                    h1 = js_mul h0 60
                in if h1 < 0 then js_add h1 360 else h1)
             else 0);
          saturation' = (if mx = 0 then 0 else js_mul (js_div delta mx) 100);
          brightness' = js_mul mx 100
      in \<lparr>hue = of_int (Math_round hue'),
          saturation = of_int (Math_round saturation'),
          brightness = of_int (Math_round brightness')\<rparr>)"

text \<open>
  Brightness is the only coordinate that both conversions treat alone: \<open>rgbToHsb\<close> turns the
  largest channel into a percentage, \<open>hsbToRgb\<close> turns a percentage back into a channel.
  The two steps are named here for the statements about the round trip.
\<close>

definition toPercent :: "int \<Rightarrow> int" where
  "toPercent m = Math_round (js_mul (js_div (of_int m) 255) 100)"

definition fromPercent :: "number \<Rightarrow> int" where
  "fromPercent p = Math_round (js_mul (js_div p 100) 255)"

section \<open>Streaming codec\<close>

text \<open>
  A \<open>Buffer\<close> is a list of bytes. \<open>Buffer.alloc\<close> fills it with zeros; \<open>writeUInt8\<close> and
  \<open>writeUInt16BE\<close> throw a \<open>RangeError\<close> when the value does not fit or the offset lies
  outside the buffer, and store the value otherwise. Panel ids and channels are integers.
  A \<open>Map<number, RGBColor>\<close> is the list of its entries in insertion order.
\<close>

type_synonym byte = "8 word"

datatype RangeError = ERR_OUT_OF_RANGE

definition Buffer_alloc :: "nat \<Rightarrow> byte list" where
  "Buffer_alloc n = replicate n 0"

definition writeUInt8 :: "int \<Rightarrow> nat \<Rightarrow> byte list \<Rightarrow> RangeError + byte list" where
  "writeUInt8 v offset buffer =
     (if v < 0 \<or> 255 < v \<or> length buffer < offset + 1 then Inl ERR_OUT_OF_RANGE
      else Inr (buffer[offset := word_of_int v]))"

definition writeUInt16BE :: "int \<Rightarrow> nat \<Rightarrow> byte list \<Rightarrow> RangeError + byte list" where
  "writeUInt16BE v offset buffer =
     (if v < 0 \<or> 65535 < v \<or> length buffer < offset + 2 then Inl ERR_OUT_OF_RANGE
      else Inr (buffer[offset := word_of_int (v div 256), offset + 1 := word_of_int (v mod 256)]))"

text \<open>A statement after a throwing one runs only when that one returned.\<close>

definition thenWrite :: "RangeError + byte list \<Rightarrow> (byte list \<Rightarrow> RangeError + byte list)
    \<Rightarrow> RangeError + byte list" where
  "thenWrite res k = (case res of Inl e \<Rightarrow> Inl e | Inr buffer \<Rightarrow> k buffer)"

fun v1_entries :: "(int \<times> RGBColor) list \<Rightarrow> nat \<Rightarrow> byte list \<Rightarrow> RangeError + byte list" where
  "v1_entries [] offset buffer = Inr buffer"
| "v1_entries ((panelId, color) # panels) offset buffer =
     thenWrite (writeUInt8 panelId offset buffer) (\<lambda>buffer.
     thenWrite (writeUInt8 1 (offset + 1) buffer) (\<lambda>buffer.
     thenWrite (writeUInt8 (rgb_r color) (offset + 2) buffer) (\<lambda>buffer.
     thenWrite (writeUInt8 (rgb_g color) (offset + 3) buffer) (\<lambda>buffer.
     thenWrite (writeUInt8 (rgb_b color) (offset + 4) buffer) (\<lambda>buffer.
     thenWrite (writeUInt8 0 (offset + 5) buffer) (\<lambda>buffer.
     thenWrite (writeUInt8 1 (offset + 6) buffer) (\<lambda>buffer.
     v1_entries panels (offset + 7) buffer)))))))"

definition buildV1Packet :: "(int \<times> RGBColor) list \<Rightarrow> RangeError + byte list" where
  "buildV1Packet panelColors =
     (let panels = panelColors;
          buffer = Buffer_alloc (1 + length panels * 7)
      in thenWrite (writeUInt8 (int (length panels)) 0 buffer) (\<lambda>buffer.
         v1_entries panels 1 buffer))"

fun v2_entries :: "(int \<times> RGBColor) list \<Rightarrow> nat \<Rightarrow> byte list \<Rightarrow> RangeError + byte list" where
  "v2_entries [] offset buffer = Inr buffer"
| "v2_entries ((panelId, color) # panels) offset buffer =
     thenWrite (writeUInt16BE panelId offset buffer) (\<lambda>buffer.
     thenWrite (writeUInt8 (rgb_r color) (offset + 2) buffer) (\<lambda>buffer.
     thenWrite (writeUInt8 (rgb_g color) (offset + 3) buffer) (\<lambda>buffer.
     thenWrite (writeUInt8 (rgb_b color) (offset + 4) buffer) (\<lambda>buffer.
     thenWrite (writeUInt8 0 (offset + 5) buffer) (\<lambda>buffer.
     thenWrite (writeUInt16BE 1 (offset + 6) buffer) (\<lambda>buffer.
     v2_entries panels (offset + 8) buffer))))))"

definition buildV2Packet :: "(int \<times> RGBColor) list \<Rightarrow> RangeError + byte list" where
  "buildV2Packet panelColors =
     (let panels = panelColors;
          buffer = Buffer_alloc (2 + length panels * 8)
      in thenWrite (writeUInt16BE (int (length panels)) 0 buffer) (\<lambda>buffer.
         v2_entries panels 2 buffer))"

text \<open>
  The frame layouts in the words of the specification, and the reading of the count field
  (one byte, or two bytes big-endian).
\<close>

definition v1_entry :: "int \<times> RGBColor \<Rightarrow> byte list" where
  "v1_entry e = [word_of_int (fst e), 1, word_of_int (rgb_r (snd e)), word_of_int (rgb_g (snd e)),
                 word_of_int (rgb_b (snd e)), 0, 1]"

definition v1_frame :: "(int \<times> RGBColor) list \<Rightarrow> byte list" where
  "v1_frame panels = word_of_int (int (length panels)) # concat (map v1_entry panels)"

definition v2_entry :: "int \<times> RGBColor \<Rightarrow> byte list" where
  "v2_entry e = [word_of_int (fst e div 256), word_of_int (fst e mod 256), word_of_int (rgb_r (snd e)),
                 word_of_int (rgb_g (snd e)), word_of_int (rgb_b (snd e)), 0, 0, 1]"

definition v2_frame :: "(int \<times> RGBColor) list \<Rightarrow> byte list" where
  "v2_frame panels =
     word_of_int (int (length panels) div 256) # word_of_int (int (length panels) mod 256)
       # concat (map v2_entry panels)"

definition readUInt8 :: "byte list \<Rightarrow> nat \<Rightarrow> int" where
  "readUInt8 buffer offset = uint (buffer ! offset)"

definition readUInt16BE :: "byte list \<Rightarrow> nat \<Rightarrow> int" where
  "readUInt16BE buffer offset = uint (buffer ! offset) * 256 + uint (buffer ! (offset + 1))"

definition rgb8 :: "RGBColor \<Rightarrow> bool" where
  "rgb8 color = (0 \<le> rgb_r color \<and> rgb_r color \<le> 255 \<and> 0 \<le> rgb_g color \<and> rgb_g color \<le> 255
                 \<and> 0 \<le> rgb_b color \<and> rgb_b color \<le> 255)"

definition fitsV1 :: "(int \<times> RGBColor) list \<Rightarrow> bool" where
  "fitsV1 panels = (length panels \<le> 255
     \<and> list_all (\<lambda>e. 0 \<le> fst e \<and> fst e \<le> 255 \<and> rgb8 (snd e)) panels)"

definition fitsV2 :: "(int \<times> RGBColor) list \<Rightarrow> bool" where
  "fitsV2 panels = (length panels \<le> 65535
     \<and> list_all (\<lambda>e. 0 \<le> fst e \<and> fst e \<le> 65535 \<and> rgb8 (snd e)) panels)"

section \<open>The second client file\<close>

text \<open>
  The repository holds a second file of the client, with the animation methods added. Its
  packet builders and color conversions are translated here from that file, under the
  names of the source followed by \<open>2\<close>.
\<close>

definition hsbToRgb2 :: "HSBColor \<Rightarrow> RGBColor" where
  "hsbToRgb2 color =
     (let h = js_div (hue color) 360;
          s = js_div (saturation color) 100;
          v = js_div (brightness color) 100;
          i = of_int (Math_floor (js_mul h 6));
          f = js_sub (js_mul h 6) i;
          p = js_mul v (js_sub 1 s);
          q = js_mul v (js_sub 1 (js_mul f s));
          t = js_mul v (js_sub 1 (js_mul (js_sub 1 f) s));
          k = js_rem i 6;
          (r', g', b') =
            (if k = 0 then (v, t, p)
             else if k = 1 then (q, v, p)
             else if k = 2 then (p, v, t)
             else if k = 3 then (p, q, v)
             else if k = 4 then (t, p, v)
             else if k = 5 then (v, p, q)
             else (0, 0, 0))
      in \<lparr>rgb_r = Math_round (js_mul r' 255),
          rgb_g = Math_round (js_mul g' 255),
          rgb_b = Math_round (js_mul b' 255)\<rparr>)"

definition rgbToHsb2 :: "RGBColor \<Rightarrow> HSBColor" where
  "rgbToHsb2 color =
     (let r' = js_div (of_int (rgb_r color)) 255;
          g' = js_div (of_int (rgb_g color)) 255;
          b' = js_div (of_int (rgb_b color)) 255;
          mx = max (max r' g') b';
          mn = min (min r' g') b';
          delta = js_sub mx mn;
          hue' =
            (if delta \<noteq> 0 then
               (let h0 = (if mx = r' then js_rem (js_div (js_sub g' b') delta) 6
                          else if mx = g' then js_add (js_div (js_sub b' r') delta) 2
                          else js_add (js_div (js_sub r' g') delta) 4);
                    h1 = js_mul h0 60
                in if h1 < 0 then js_add h1 360 else h1)
             else 0);
          saturation' = (if mx = 0 then 0 else js_mul (js_div delta mx) 100);
          brightness' = js_mul mx 100
      in \<lparr>hue = of_int (Math_round hue'),
          saturation = of_int (Math_round saturation'),
          brightness = of_int (Math_round brightness')\<rparr>)"

fun v1_entries2 :: "(int \<times> RGBColor) list \<Rightarrow> nat \<Rightarrow> byte list \<Rightarrow> RangeError + byte list" where
  "v1_entries2 [] offset buffer = Inr buffer"
| "v1_entries2 ((panelId, color) # panels) offset buffer =
     thenWrite (writeUInt8 panelId offset buffer) (\<lambda>buffer.
     thenWrite (writeUInt8 1 (offset + 1) buffer) (\<lambda>buffer.
     thenWrite (writeUInt8 (rgb_r color) (offset + 2) buffer) (\<lambda>buffer.
     thenWrite (writeUInt8 (rgb_g color) (offset + 3) buffer) (\<lambda>buffer.
     thenWrite (writeUInt8 (rgb_b color) (offset + 4) buffer) (\<lambda>buffer.
     thenWrite (writeUInt8 0 (offset + 5) buffer) (\<lambda>buffer.
     thenWrite (writeUInt8 1 (offset + 6) buffer) (\<lambda>buffer.
     v1_entries2 panels (offset + 7) buffer)))))))"

definition buildV1Packet2 :: "(int \<times> RGBColor) list \<Rightarrow> RangeError + byte list" where
  "buildV1Packet2 panelColors =
     (let panels = panelColors;
          buffer = Buffer_alloc (1 + length panels * 7)
      in thenWrite (writeUInt8 (int (length panels)) 0 buffer) (\<lambda>buffer.
         v1_entries2 panels 1 buffer))"

fun v2_entries2 :: "(int \<times> RGBColor) list \<Rightarrow> nat \<Rightarrow> byte list \<Rightarrow> RangeError + byte list" where
  "v2_entries2 [] offset buffer = Inr buffer"
| "v2_entries2 ((panelId, color) # panels) offset buffer =
     thenWrite (writeUInt16BE panelId offset buffer) (\<lambda>buffer.
     thenWrite (writeUInt8 (rgb_r color) (offset + 2) buffer) (\<lambda>buffer.
     thenWrite (writeUInt8 (rgb_g color) (offset + 3) buffer) (\<lambda>buffer.
     thenWrite (writeUInt8 (rgb_b color) (offset + 4) buffer) (\<lambda>buffer.
     thenWrite (writeUInt8 0 (offset + 5) buffer) (\<lambda>buffer.
     thenWrite (writeUInt16BE 1 (offset + 6) buffer) (\<lambda>buffer.
     v2_entries2 panels (offset + 8) buffer))))))"

definition buildV2Packet2 :: "(int \<times> RGBColor) list \<Rightarrow> RangeError + byte list" where
  "buildV2Packet2 panelColors =
     (let panels = panelColors;
          buffer = Buffer_alloc (2 + length panels * 8)
      in thenWrite (writeUInt16BE (int (length panels)) 0 buffer) (\<lambda>buffer.
         v2_entries2 panels 2 buffer))"

section \<open>JavaScript strings\<close>

text \<open>
  A JavaScript string is the sequence of its UTF-16 code units. \<open>str\<close> gives the string of a
  literal of the source, whose characters are ASCII. The code compares strings, tests them
  for emptiness, joins them, and lower-cases them with \<open>String.prototype.toLowerCase\<close>.
  That function belongs to the library, not to this program: every function below that
  calls it takes it as its first argument \<open>toLowerCase\<close>, and the statements about those
  functions hold for every function in its place.
\<close>

type_synonym code_unit = "16 word"

type_synonym jsstring = "code_unit list"

type_synonym lowering = "jsstring \<Rightarrow> jsstring"

definition str :: "string \<Rightarrow> jsstring" where
  "str s = map (\<lambda>ch. of_nat (of_char ch)) s"

section \<open>Device connection\<close>

text \<open>
  \<open>DeviceInfo\<close> keeps the parts of the device's answer that the code reads, each under the
  path it has in the source: \<open>info.state.hue.value\<close> is \<open>state_hue\<close>,
  \<open>info.effects.select\<close> is \<open>effects_select\<close>, \<open>info.panelLayout.layout.positionData\<close> is
  \<open>layout_positionData\<close>. The fields \<open>x\<close>, \<open>y\<close>, \<open>o\<close> of a panel position are \<open>pos_x\<close>,
  \<open>pos_y\<close>, \<open>pos_o\<close>.
\<close>

record PanelPosition =
  panelId :: int
  pos_x :: int
  pos_y :: int
  pos_o :: int
  shapeType :: int

record DeviceInfo =
  info_name :: jsstring
  info_model :: jsstring
  state_brightness :: number
  state_hue :: number
  state_sat :: number
  effects_select :: jsstring
  layout_numPanels :: int
  layout_sideLength :: int
  layout_positionData :: "PanelPosition list"

record Bounds =
  minX :: int
  maxX :: int
  minY :: int
  maxY :: int
  width :: int
  height :: int

record PanelLayout =
  numPanels :: int
  sideLength :: int
  positions :: "PanelPosition list"
  bounds :: Bounds

text \<open>
  The body of \<open>PUT /state\<close>: each key is present or absent. The body of the static-effect
  write of \<open>PUT /effects\<close> is its \<open>animData\<close>, kept as the sequence of the numbers that the
  source joins with spaces; the other keys of that body are constants.
\<close>

record StatePayload =
  put_on :: "bool option"
  put_brightness :: "number option"
  put_hue :: "number option"
  put_sat :: "number option"
  put_ct :: "number option"

datatype Request =
  GET_info
  | PUT_state StatePayload
  | PUT_effects_static "int list"

datatype HttpError = Connectivity

text \<open>
  The device and the network are the environment: the reply to the \<open>n\<close>-th request of a
  connection is \<open>None\<close> when the request fails (time-out, refusal, a status that is not 2xx)
  and the device's state at that moment otherwise. A connection holds its cache of light
  panel ids and, for the statements about the order of requests, the requests it has sent.
\<close>

type_synonym network = "nat \<Rightarrow> DeviceInfo option"

record NanoleafClient =
  cachedLightPanelIds :: "int list option"
  sent :: "Request list"

type_synonym 'a outcome = "(HttpError + 'a) \<times> NanoleafClient"

text \<open>\<open>await\<close>: the rest of the method runs when the awaited call did not throw.\<close>

definition await :: "'a outcome \<Rightarrow> ('a \<Rightarrow> NanoleafClient \<Rightarrow> 'b outcome) \<Rightarrow> 'b outcome" where
  "await m k = (case m of (Inl e, c) \<Rightarrow> (Inl e, c) | (Inr v, c) \<Rightarrow> k v c)"

definition client_get :: "network \<Rightarrow> NanoleafClient \<Rightarrow> DeviceInfo outcome" where
  "client_get net c =
     (case net (length (sent c)) of
        None \<Rightarrow> (Inl Connectivity, c\<lparr>sent := sent c @ [GET_info]\<rparr>)
      | Some info \<Rightarrow> (Inr info, c\<lparr>sent := sent c @ [GET_info]\<rparr>))"

definition client_put :: "network \<Rightarrow> Request \<Rightarrow> NanoleafClient \<Rightarrow> unit outcome" where
  "client_put net req c =
     (case net (length (sent c)) of
        None \<Rightarrow> (Inl Connectivity, c\<lparr>sent := sent c @ [req]\<rparr>)
      | Some info \<Rightarrow> (Inr (), c\<lparr>sent := sent c @ [req]\<rparr>))"

definition getInfo :: "network \<Rightarrow> NanoleafClient \<Rightarrow> DeviceInfo outcome" where
  "getInfo net c = client_get net c"

definition Math_min_list :: "int list \<Rightarrow> int" where
  "Math_min_list xs = fold min (tl xs) (hd xs)"

definition Math_max_list :: "int list \<Rightarrow> int" where
  "Math_max_list xs = fold max (tl xs) (hd xs)"

definition getPanelLayout :: "network \<Rightarrow> NanoleafClient \<Rightarrow> PanelLayout outcome" where
  "getPanelLayout net c =
     await (getInfo net c) (\<lambda>info c.
       let positions' = layout_positionData info
       in if length positions' = 0 then
            (Inr \<lparr>numPanels = 0, sideLength = layout_sideLength info, positions = [],
                  bounds = \<lparr>minX = 0, maxX = 0, minY = 0, maxY = 0, width = 0, height = 0\<rparr>\<rparr>, c)
          else
            let xs = map pos_x positions';
                ys = map pos_y positions';
                minX' = Math_min_list xs;
                maxX' = Math_max_list xs;
                minY' = Math_min_list ys;
                maxY' = Math_max_list ys
            in (Inr \<lparr>numPanels = layout_numPanels info, sideLength = layout_sideLength info,
                     positions = positions',
                     bounds = \<lparr>minX = minX', maxX = maxX', minY = minY', maxY = maxY',
                               width = maxX' - minX', height = maxY' - minY'\<rparr>\<rparr>, c))"

definition getLightPanelIds :: "network \<Rightarrow> NanoleafClient \<Rightarrow> int list outcome" where
  "getLightPanelIds net c =
     (case cachedLightPanelIds c of
        Some ids \<Rightarrow> (Inr ids, c)
      | None \<Rightarrow>
          await (getPanelLayout net c) (\<lambda>layout c.
            let ids = map panelId (filter (\<lambda>p. shapeType p \<noteq> 12) (positions layout))
            in (Inr ids, c\<lparr>cachedLightPanelIds := Some ids\<rparr>)))"

definition animData :: "(int \<times> RGBColor) list \<Rightarrow> int list" where
  "animData panels =
     int (length panels)
       # concat (map (\<lambda>(panelId, color). [panelId, 1, rgb_r color, rgb_g color, rgb_b color, 0, 1])
                   panels)"

definition setPanelColors :: "network \<Rightarrow> (int \<times> RGBColor) list \<Rightarrow> NanoleafClient \<Rightarrow> unit outcome" where
  "setPanelColors net panelColors c = client_put net (PUT_effects_static (animData panelColors)) c"

definition setAllPanelsColor :: "network \<Rightarrow> RGBColor \<Rightarrow> NanoleafClient \<Rightarrow> unit outcome" where
  "setAllPanelsColor net color c =
     await (getLightPanelIds net c) (\<lambda>ids c.
       setPanelColors net (fold (\<lambda>id' panelColors. AList.update id' color panelColors) ids []) c)"

definition ensureStaticMode :: "network \<Rightarrow> NanoleafClient \<Rightarrow> unit outcome" where
  "ensureStaticMode net c =
     await (getInfo net c) (\<lambda>info c.
       let effect = effects_select info
       in if effect = str ''*Solid*'' \<or> effect = str ''*Static*'' then (Inr (), c)
          else
            let hsb = \<lparr>hue = state_hue info, saturation = state_sat info,
                       brightness = state_brightness info\<rparr>;
                rgb = hsbToRgb hsb
            in setAllPanelsColor net rgb c)"

definition emptyPayload :: StatePayload where
  "emptyPayload = \<lparr>put_on = None, put_brightness = None, put_hue = None, put_sat = None,
                    put_ct = None\<rparr>"

definition setBrightness :: "network \<Rightarrow> number \<Rightarrow> NanoleafClient \<Rightarrow> unit outcome" where
  "setBrightness net brightness' c =
     await (ensureStaticMode net c) (\<lambda>_ c.
       let v = max 0 (min 100 brightness')
       in client_put net (PUT_state (emptyPayload\<lparr>put_brightness := Some v\<rparr>)) c)"

definition setHue :: "network \<Rightarrow> number \<Rightarrow> NanoleafClient \<Rightarrow> unit outcome" where
  "setHue net hue' c =
     await (ensureStaticMode net c) (\<lambda>_ c.
       let v = max 0 (min 360 hue')
       in client_put net (PUT_state (emptyPayload\<lparr>put_hue := Some v\<rparr>)) c)"

definition setSaturation :: "network \<Rightarrow> number \<Rightarrow> NanoleafClient \<Rightarrow> unit outcome" where
  "setSaturation net saturation' c =
     await (ensureStaticMode net c) (\<lambda>_ c.
       let v = max 0 (min 100 saturation')
       in client_put net (PUT_state (emptyPayload\<lparr>put_sat := Some v\<rparr>)) c)"

definition setColorTemperature :: "network \<Rightarrow> number \<Rightarrow> NanoleafClient \<Rightarrow> unit outcome" where
  "setColorTemperature net ct c =
     await (ensureStaticMode net c) (\<lambda>_ c.
       let v = max 1200 (min 6500 ct)
       in client_put net (PUT_state (emptyPayload\<lparr>put_ct := Some v\<rparr>)) c)"

definition setColor :: "network \<Rightarrow> RGBColor \<Rightarrow> NanoleafClient \<Rightarrow> unit outcome" where
  "setColor net color c = setAllPanelsColor net color c"

record StateArgs =
  arg_on :: "bool option"
  arg_brightness :: "number option"
  arg_hue :: "number option"
  arg_saturation :: "number option"
  arg_ct :: "number option"

definition setState :: "network \<Rightarrow> StateArgs \<Rightarrow> NanoleafClient \<Rightarrow> unit outcome" where
  "setState net state c =
     await (ensureStaticMode net c) (\<lambda>_ c.
       let payload = emptyPayload;
           payload = (case arg_on state of None \<Rightarrow> payload
                      | Some v \<Rightarrow> payload\<lparr>put_on := Some v\<rparr>);
           payload = (case arg_brightness state of None \<Rightarrow> payload
                      | Some v \<Rightarrow> payload\<lparr>put_brightness := Some (max 0 (min 100 v))\<rparr>);
           payload = (case arg_hue state of None \<Rightarrow> payload
                      | Some v \<Rightarrow> payload\<lparr>put_hue := Some (max 0 (min 360 v))\<rparr>);
           payload = (case arg_saturation state of None \<Rightarrow> payload
                      | Some v \<Rightarrow> payload\<lparr>put_sat := Some (max 0 (min 100 v))\<rparr>);
           payload = (case arg_ct state of None \<Rightarrow> payload
                      | Some v \<Rightarrow> payload\<lparr>put_ct := Some (max 1200 (min 6500 v))\<rparr>)
       in client_put net (PUT_state payload) c)"

section \<open>Device registry\<close>

text \<open>
  An optional string argument is \<open>None\<close> when it is \<open>undefined\<close>; JavaScript's tests \<open>!s\<close>
  and \<open>s || t\<close> treat the empty string like \<open>undefined\<close>.
\<close>

definition falsy :: "jsstring option \<Rightarrow> bool" where
  "falsy s = (s = None \<or> s = Some [])"

definition or_else :: "jsstring option \<Rightarrow> jsstring \<Rightarrow> jsstring" where
  "or_else s t = (case s of None \<Rightarrow> t | Some a \<Rightarrow> if a = [] then t else a)"

text \<open>
  \<open>client\<close> is the identity of the \<open>NanoleafClient\<close> object that \<open>register\<close> constructs: the
  number of clients constructed before it. The \<open>Map\<close> of devices is the list of its entries in
  insertion order: \<open>set\<close> replaces the value of a key at its place or appends a new
  entry (\<open>AList.update\<close>), \<open>delete\<close> removes the entry of a key (\<open>AList.delete\<close>), \<open>get\<close> is
  \<open>map_of\<close>. Every device object is the value of one key only, so an entry holds the
  device's fields themselves.
\<close>

record RegisteredDevice =
  "alias" :: jsstring
  ip :: jsstring
  authToken :: jsstring
  client :: nat
  name :: "jsstring option"
  model :: "jsstring option"

type_synonym entries = "(jsstring \<times> RegisteredDevice) list"

record DeviceManager =
  devices :: entries
  clients :: nat

definition newDeviceManager :: DeviceManager where
  "newDeviceManager = \<lparr>devices = [], clients = 0\<rparr>"


definition remove :: "lowering \<Rightarrow> jsstring \<Rightarrow> DeviceManager \<Rightarrow> bool \<times> DeviceManager" where
  "remove toLowerCase alias' m =
     (map_of (devices m) (toLowerCase alias') \<noteq> None,
      m\<lparr>devices := AList.delete (toLowerCase alias') (devices m)\<rparr>)"

text \<open>
  \<open>resolve\<close> returns \<open>{ error: message }\<close> or the device (with its client). The three
  messages are the three kinds of \<open>ResolveError\<close>; \<open>errorMessage\<close> is the text.
\<close>

datatype ResolveError =
  NotConfigured
  | AmbiguousSelection "jsstring list"
  | NotFound jsstring "jsstring list"

fun join :: "jsstring \<Rightarrow> jsstring list \<Rightarrow> jsstring" where
  "join sep [] = []"
| "join sep [s] = s"
| "join sep (s # t # rest) = s @ sep @ join sep (t # rest)"

definition errorMessage :: "ResolveError \<Rightarrow> jsstring" where
  "errorMessage e =
     (case e of
        NotConfigured \<Rightarrow>
          str ''No devices registered. Set NANOLEAF_DEVICES env var or use add_device / discover_devices + create_auth_token to set up.''
      | AmbiguousSelection aliases \<Rightarrow>
          str ''Multiple devices registered. Specify which device: '' @ join (str '', '') aliases
      | NotFound deviceParam aliases \<Rightarrow>
          str ''Device '' @ str [CHR 0x22] @ deviceParam @ str [CHR 0x22]
            @ str '' not found. Available: '' @ join (str '', '') aliases)"

definition resolve :: "lowering \<Rightarrow> jsstring option \<Rightarrow> DeviceManager
    \<Rightarrow> ResolveError + RegisteredDevice" where
  "resolve toLowerCase deviceParam m =
     (if length (devices m) = 0 then Inl NotConfigured
      else if falsy deviceParam then
        (case devices m of
           [(key, device)] \<Rightarrow> Inr device
         | _ \<Rightarrow> Inl (AmbiguousSelection (map (\<lambda>(key, d). alias d) (devices m))))
      else
        (let param = or_else deviceParam [];
             lower = toLowerCase param
         in case map_of (devices m) lower of
              Some byAlias \<Rightarrow> Inr byAlias
            | None \<Rightarrow>
                (case find (\<lambda>(key, device). ip device = param) (devices m) of
                   Some (key, device) \<Rightarrow> Inr device
                 | None \<Rightarrow> Inl (NotFound param (map (\<lambda>(key, d). alias d) (devices m))))))"

text \<open>
  \<open>refreshNames\<close> iterates over the live \<open>Map\<close>: an entry set during the loop is appended and
  is visited later in the same loop, a deleted entry that was still to come is skipped.
  \<open>visit\<close> is the body of the loop for the entry at the head of those still to come, given
  the entries already visited; \<open>fetched\<close> is the answer of \<open>getInfo\<close>, \<open>None\<close> when it threw.
  The hardware is the environment: \<open>hw n device\<close> is the answer to the \<open>n\<close>-th call of
  \<open>getInfo\<close> in this run.
\<close>

type_synonym hardware = "nat \<Rightarrow> RegisteredDevice \<Rightarrow> DeviceInfo option"

definition visit :: "lowering \<Rightarrow> DeviceInfo option \<Rightarrow> entries \<Rightarrow> jsstring \<times> RegisteredDevice
    \<Rightarrow> entries \<Rightarrow> entries \<times> entries" where
  "visit toLowerCase fetched visited entry rest =
     (case fetched of
        None \<Rightarrow> (visited @ [entry], rest)
      | Some info \<Rightarrow>
          (let key = fst entry;
               device = (snd entry)\<lparr>name := Some (info_name info), model := Some (info_model info)\<rparr>
           in if alias device = ip device \<and> info_name info \<noteq> [] then
                (let oldKey = toLowerCase (ip device);
                     newAlias = info_name info;
                     newKey = toLowerCase newAlias
                 in if map_of (visited @ (key, device) # rest) newKey = None then
                      (AList.delete oldKey (visited @ [(key, device\<lparr>alias := newAlias\<rparr>)]),
                       AList.delete oldKey rest @ [(newKey, device\<lparr>alias := newAlias\<rparr>)])
                    else (visited @ [(key, device)], rest))
              else (visited @ [(key, device)], rest)))"

text \<open>
  The loop ends: every step either shortens the list of entries to come or lowers the
  weight of those whose alias is their address.
\<close>

definition weight :: "lowering \<Rightarrow> jsstring \<times> RegisteredDevice \<Rightarrow> nat" where
  "weight toLowerCase entry =
     (if alias (snd entry) = ip (snd entry)
      then (if fst entry = toLowerCase (ip (snd entry)) then 1 else 2) else 0)"

function refreshLoop :: "lowering \<Rightarrow> hardware \<Rightarrow> nat \<Rightarrow> entries \<Rightarrow> entries \<Rightarrow> entries" where
  "refreshLoop toLowerCase hw n visited [] = visited"
| "refreshLoop toLowerCase hw n visited (entry # rest) =
     refreshLoop toLowerCase hw (Suc n)
       (fst (visit toLowerCase (hw n (snd entry)) visited entry rest))
       (snd (visit toLowerCase (hw n (snd entry)) visited entry rest))"
  by pat_completeness auto
termination
proof (relation "measures [\<lambda>(lc, hw, n, visited, todo). sum_list (map (weight lc) todo),
                          \<lambda>(lc, hw, n, visited, todo). length todo]")
  show "wf (measures [\<lambda>(lc :: lowering, hw :: hardware, n :: nat, visited :: entries, todo).
                         sum_list (map (weight lc) todo),
                      \<lambda>(lc, hw, n, visited, todo). length todo])"
    by simp
next
  fix lc :: lowering and hw :: hardware and n :: nat
    and visited rest :: entries and entry :: "jsstring \<times> RegisteredDevice"
  define todo' where "todo' = snd (visit lc (hw n (snd entry)) visited entry rest)"
  have del: "sum_list (map (weight lc) (AList.delete k xs)) \<le> sum_list (map (weight lc) xs)"
    for k and xs :: entries
    by (induction xs) auto
  have "sum_list (map (weight lc) todo') < sum_list (map (weight lc) (entry # rest))
      \<or> (sum_list (map (weight lc) todo') = sum_list (map (weight lc) (entry # rest))
          \<and> length todo' < length (entry # rest))"
  proof (cases "hw n (snd entry)")
    case None
    then have "todo' = rest" by (simp add: todo'_def visit_def)
    then show ?thesis by auto
  next
    case (Some info)
    define device where
      "device = (snd entry)\<lparr>name := Some (info_name info), model := Some (info_model info)\<rparr>"
    show ?thesis
    proof (cases "alias device = ip device \<and> info_name info \<noteq> []
        \<and> map_of (visited @ (fst entry, device) # rest) (lc (info_name info)) = None")
      case False
      then have "todo' = rest"
        by (auto simp: todo'_def visit_def Some Let_def device_def)
      then show ?thesis by auto
    next
      case True
      then have t: "todo' = AList.delete (lc (ip device)) rest
          @ [(lc (info_name info), device\<lparr>alias := info_name info\<rparr>)]"
        by (simp add: todo'_def visit_def Some Let_def device_def)
      from True have fresh: "fst entry \<noteq> lc (info_name info)"
        by (auto simp: map_of_append split: option.splits)
      have same: "alias (snd entry) = alias device" "ip (snd entry) = ip device"
        by (simp_all add: device_def)
      have old: "weight lc entry = (if fst entry = lc (ip device) then 1 else 2)"
        using True by (simp add: weight_def same)
      have "weight lc (lc (info_name info), device\<lparr>alias := info_name info\<rparr>)
          = (if info_name info = ip device then 1 else 0)"
        by (simp add: weight_def)
      then have new: "weight lc (lc (info_name info), device\<lparr>alias := info_name info\<rparr>)
          < weight lc entry"
        using fresh by (auto simp: old)
      have "sum_list (map (weight lc) todo')
          = sum_list (map (weight lc) (AList.delete (lc (ip device)) rest))
            + weight lc (lc (info_name info), device\<lparr>alias := info_name info\<rparr>)"
        by (simp add: t)
      also have "\<dots> < sum_list (map (weight lc) rest) + weight lc entry"
        using del [of "lc (ip device)" rest] new by linarith
      finally show ?thesis by simp
    qed
  qed
  then show "((lc, hw, Suc n, fst (visit lc (hw n (snd entry)) visited entry rest),
               snd (visit lc (hw n (snd entry)) visited entry rest)),
              (lc, hw, n, visited, entry # rest))
      \<in> measures [\<lambda>(lc, hw, n, visited, todo). sum_list (map (weight lc) todo),
                   \<lambda>(lc, hw, n, visited, todo). length todo]"
    by (auto simp: todo'_def case_prod_unfold)
qed

definition refreshNames :: "lowering \<Rightarrow> hardware \<Rightarrow> DeviceManager \<Rightarrow> DeviceManager" where
  "refreshNames toLowerCase hw m = m\<lparr>devices := refreshLoop toLowerCase hw 0 [] (devices m)\<rparr>"

text \<open>
  The states the registry reaches: keys are distinct, the key of an entry is its alias in
  lower case, every client was constructed by this registry, and no two entries share a
  client.
\<close>

definition entriesOk :: "lowering \<Rightarrow> nat \<Rightarrow> entries \<Rightarrow> bool" where
  "entriesOk toLowerCase n xs =
     (distinct (map fst xs)
      \<and> distinct (map (\<lambda>(key, device). client device) xs)
      \<and> list_all (\<lambda>(key, device). key = toLowerCase (alias device) \<and> client device < n) xs)"

definition wellFormed :: "lowering \<Rightarrow> DeviceManager \<Rightarrow> bool" where
  "wellFormed toLowerCase m = entriesOk toLowerCase (clients m) (devices m)"

text \<open>
  The words of the statements about \<open>refreshNames\<close>. \<open>fetchedDevice\<close> is the device after a
  successful fetch, \<open>upgrades\<close> the condition under which alias and key are rewritten:
  the alias is the address, the reported name is not empty, and its lower-case form is no
  key of the registry. \<open>keeps\<close> finds an entry again under its key, with its alias, address,
  token and client. \<open>loopState\<close> is the position of the loop after \<open>n\<close> fetches: the entries
  it has passed and those still to come, the next one first; together they are the
  registry at that moment.
\<close>

definition fetchedDevice :: "DeviceInfo \<Rightarrow> RegisteredDevice \<Rightarrow> RegisteredDevice" where
  "fetchedDevice info d = d\<lparr>name := Some (info_name info), model := Some (info_model info)\<rparr>"

definition upgrades :: "lowering \<Rightarrow> DeviceInfo \<Rightarrow> entries \<Rightarrow> RegisteredDevice \<Rightarrow> bool" where
  "upgrades toLowerCase info registry d =
     (alias d = ip d \<and> info_name info \<noteq> []
      \<and> toLowerCase (info_name info) \<notin> fst ` set registry)"

definition keeps :: "jsstring \<times> RegisteredDevice \<Rightarrow> entries \<Rightarrow> bool" where
  "keeps e xs =
     list_ex (\<lambda>(key, d'). key = fst e \<and> alias d' = alias (snd e) \<and> ip d' = ip (snd e)
                \<and> authToken d' = authToken (snd e) \<and> client d' = client (snd e)) xs"

primrec loopState :: "lowering \<Rightarrow> hardware \<Rightarrow> entries \<Rightarrow> nat \<Rightarrow> entries \<times> entries" where
  "loopState toLowerCase hw es 0 = ([], es)"
| "loopState toLowerCase hw es (Suc n) =
     (case loopState toLowerCase hw es n of
        (visited, []) \<Rightarrow> (visited, [])
      | (visited, entry # rest) \<Rightarrow> visit toLowerCase (hw n (snd entry)) visited entry rest)"

text \<open>
  The words of the statements about the connection. \<open>lightPanelIds\<close> are the ids of the
  positions of a layout whose shape type is not 12, in the order of the layout. \<open>once\<close>
  drops the repetitions of a list of ids, every id staying at its first place.
  \<open>staticWrite ids color\<close> is the static-effect write that addresses every id of \<open>ids\<close>
  once: its \<open>animData\<close> is the number of panels and then, for each of them, the panel id,
  1 (one frame), the red, green and blue channel of the color, 0, and the transition
  time 1. \<open>currentRgb\<close> is the color the reconciler freezes, \<open>isStatic\<close> its test for static
  mode, \<open>clamp\<close> the nearest value of a range, and \<open>statePayload\<close> the body that \<open>setState\<close>
  writes.
\<close>

definition lightPanelIds :: "DeviceInfo \<Rightarrow> int list" where
  "lightPanelIds info = map panelId (filter (\<lambda>p. shapeType p \<noteq> 12) (layout_positionData info))"

primrec once :: "int list \<Rightarrow> int list" where
  "once [] = []"
| "once (pid # ids) = pid # filter (\<lambda>other. other \<noteq> pid) (once ids)"

definition staticWrite :: "int list \<Rightarrow> RGBColor \<Rightarrow> Request" where
  "staticWrite ids color =
     PUT_effects_static
       (int (length (once ids))
          # concat (map (\<lambda>pid. [pid, 1, rgb_r color, rgb_g color, rgb_b color, 0, 1]) (once ids)))"

definition currentRgb :: "DeviceInfo \<Rightarrow> RGBColor" where
  "currentRgb info = hsbToRgb \<lparr>hue = state_hue info, saturation = state_sat info,
                               brightness = state_brightness info\<rparr>"

definition isStatic :: "DeviceInfo \<Rightarrow> bool" where
  "isStatic info = (effects_select info = str ''*Solid*'' \<or> effects_select info = str ''*Static*'')"

definition clamp :: "number \<Rightarrow> number \<Rightarrow> number \<Rightarrow> number" where
  "clamp lo hi v = (if v < lo then lo else if hi < v then hi else v)"

definition statePayload :: "StateArgs \<Rightarrow> StatePayload" where
  "statePayload state =
     \<lparr>put_on = arg_on state,
      put_brightness = map_option (clamp 0 100) (arg_brightness state),
      put_hue = map_option (clamp 0 360) (arg_hue state),
      put_sat = map_option (clamp 0 100) (arg_saturation state),
      put_ct = map_option (clamp 1200 6500) (arg_ct state)\<rparr>"

definition stateWrites :: "Request list \<Rightarrow> StatePayload list" where
  "stateWrites reqs = concat (map (\<lambda>req. case req of PUT_state p \<Rightarrow> [p] | _ \<Rightarrow> []) reqs)"

text \<open>
  \<open>sends c reqs\<close> is the connection after it has sent \<open>reqs\<close>. Every state write of the
  source is the reconciler followed by one \<open>PUT /state\<close> (\<open>reconcileThenPut\<close>).
\<close>

definition sends :: "NanoleafClient \<Rightarrow> Request list \<Rightarrow> NanoleafClient" where
  "sends c reqs = c\<lparr>sent := sent c @ reqs\<rparr>"

definition reconcileThenPut :: "network \<Rightarrow> StatePayload \<Rightarrow> NanoleafClient \<Rightarrow> unit outcome" where
  "reconcileThenPut net p c = await (ensureStaticMode net c) (\<lambda>_ c. client_put net (PUT_state p) c)"

text \<open>
  \<open>reconciles net c p result\<close>: the requests of an operation that started in \<open>c\<close> and ended
  in \<open>result\<close>, case by case. The first request reads the device. When the read fails,
  nothing follows. When the selected effect is a static one, the write of \<open>p\<close> follows and
  nothing else. Otherwise the static-effect write follows, for the cached light panels or,
  with an empty cache, for those of a second read, with the color converted from the hue,
  saturation and brightness of the first read; the write of \<open>p\<close> comes after it. A request
  that fails is the last one.
\<close>

definition reconciles :: "network \<Rightarrow> NanoleafClient \<Rightarrow> StatePayload \<Rightarrow> unit outcome \<Rightarrow> bool" where
  "reconciles net c p result =
     ((\<exists>more. sent (snd result) = sent c @ GET_info # more)
      \<and> (net (length (sent c)) = None \<longrightarrow>
            sent (snd result) = sent c @ [GET_info] \<and> fst result = Inl Connectivity)
      \<and> (\<forall>info. net (length (sent c)) = Some info \<longrightarrow>
            (isStatic info \<longrightarrow> sent (snd result) = sent c @ [GET_info, PUT_state p])
          \<and> (\<not> isStatic info \<longrightarrow>
                (\<forall>ids. cachedLightPanelIds c = Some ids \<longrightarrow>
                    sent (snd result)
                      = sent c @ [GET_info, staticWrite ids (currentRgb info)]
                          @ (if net (length (sent c) + 1) = None then [] else [PUT_state p]))
              \<and> (cachedLightPanelIds c = None \<longrightarrow>
                    (net (length (sent c) + 1) = None \<longrightarrow>
                       sent (snd result) = sent c @ [GET_info, GET_info]
                       \<and> fst result = Inl Connectivity)
                  \<and> (\<forall>info2. net (length (sent c) + 1) = Some info2 \<longrightarrow>
                       sent (snd result)
                         = sent c @ [GET_info, GET_info,
                                     staticWrite (lightPanelIds info2) (currentRgb info)]
                             @ (if net (length (sent c) + 2) = None then []
                                else [PUT_state p]))))))"

text \<open>
  \<open>writes net c p result\<close>: the operation sent no body to \<open>PUT /state\<close> or the body \<open>p\<close>
  alone, and it sent \<open>p\<close> when no request failed.
\<close>

definition writes :: "network \<Rightarrow> NanoleafClient \<Rightarrow> StatePayload \<Rightarrow> unit outcome \<Rightarrow> bool" where
  "writes net c p result =
     ((stateWrites (sent (snd result)) = stateWrites (sent c)
        \<or> stateWrites (sent (snd result)) = stateWrites (sent c) @ [p])
      \<and> ((\<forall>k. net k \<noteq> None) \<longrightarrow> stateWrites (sent (snd result)) = stateWrites (sent c) @ [p]))"

section \<open>Example inputs\<close>

text \<open>
  The strings of the examples hold ASCII code units only. On such strings the library's
  \<open>toLowerCase\<close> maps the letters \<open>A\<close> to \<open>Z\<close> to \<open>a\<close> to \<open>z\<close> and leaves every other code unit
  as it is; \<open>exampleLowerCase\<close> is the function at which the examples are evaluated.
\<close>

definition exampleLowerCase :: lowering where
  "exampleLowerCase s = map (\<lambda>u. if 65 \<le> u \<and> u \<le> 90 then u + 32 else u) s"

definition deviceA :: RegisteredDevice where
  "deviceA = \<lparr>alias = str ''Kitchen'', ip = str ''10.0.0.1'', authToken = str ''t1'', client = 0,
              name = None, model = None\<rparr>"

definition deviceB :: RegisteredDevice where
  "deviceB = \<lparr>alias = str ''10.0.0.2'', ip = str ''10.0.0.2'', authToken = str ''t2'', client = 1,
              name = None, model = None\<rparr>"

definition twoDevices :: DeviceManager where
  "twoDevices = \<lparr>devices = [(str ''kitchen'', deviceA), (str ''10.0.0.2'', deviceB)], clients = 2\<rparr>"

definition exampleInfo :: DeviceInfo where
  "exampleInfo = \<lparr>info_name = str ''Shapes'', info_model = str ''NL42'', state_brightness = 60,
     state_hue = 200, state_sat = 80, effects_select = str ''*Dynamic*'', layout_numPanels = 3,
     layout_sideLength = 67,
     layout_positionData =
       [\<lparr>panelId = 101, pos_x = 0, pos_y = 0, pos_o = 0, shapeType = 7\<rparr>,
        \<lparr>panelId = 0, pos_x = 10, pos_y = 0, pos_o = 0, shapeType = 12\<rparr>,
        \<lparr>panelId = 102, pos_x = 20, pos_y = 5, pos_o = 60, shapeType = 7\<rparr>]\<rparr>"


definition answersShapes :: hardware where
  "answersShapes n device = Some exampleInfo"

definition red :: RGBColor where
  "red = \<lparr>rgb_r = 255, rgb_g = 0, rgb_b = 0\<rparr>"

definition onePanel :: "(int \<times> RGBColor) list" where
  "onePanel = [(7, red)]"

definition twoPanels :: "(int \<times> RGBColor) list" where
  "twoPanels = [(7, red), (300, \<lparr>rgb_r = 1, rgb_g = 2, rgb_b = 3\<rparr>)]"

definition newClient :: NanoleafClient where
  "newClient = \<lparr>cachedLightPanelIds = None, sent = []\<rparr>"

definition staticInfo :: DeviceInfo where
  "staticInfo = exampleInfo\<lparr>effects_select := str ''*Static*''\<rparr>"

lemma two_powi_pos: "0 < (2::real) powi n"
  by simp

lemma two_powi_Suc: "(2::real) powi (n + 1) = 2 * 2 powi n"
  by (simp add: power_int_add)

lemma two_powi_pred: "(2::real) powi (n - 1) = 2 powi n / 2"
  by (simp add: power_int_diff)

lemma two_powi_mono: "m \<le> n \<Longrightarrow> (2::real) powi m \<le> 2 powi n"
  by (rule power_int_increasing) simp_all

lemma expo_up_bounds:
  "1 \<le> x \<Longrightarrow> 2 powi (expo_up x n - n) \<le> x \<and> x < 2 powi (expo_up x n - n + 1)"
proof (induction x n rule: expo_up.induct)
  case (1 x n)
  show ?case
  proof (cases "x < 2")
    case True
    with 1(2) show ?thesis by (simp add: expo_up.simps)
  next
    case False
    then have half: "1 \<le> x / 2" by simp
    have eq: "expo_up x n = expo_up (x / 2) (n + 1)"
      using False by (subst expo_up.simps) simp
    define d where "d = expo_up (x / 2) (n + 1) - (n + 1)"
    from 1(1) [OF False half]
    have lo: "2 powi d \<le> x / 2" and hi: "x / 2 < 2 powi (d + 1)"
      unfolding d_def by simp_all
    have a: "expo_up x n - n = d + 1"
      using eq by (simp add: d_def)
    have "2 powi (d + 1) \<le> x"
      using lo by (simp add: two_powi_Suc)
    moreover have "x < 2 powi (d + 1 + 1)"
      unfolding two_powi_Suc [of "d + 1"] using hi by linarith
    ultimately show ?thesis
      unfolding a by simp
  qed
qed

lemma expo_up_ge: "n \<le> expo_up x n"
proof (induction x n rule: expo_up.induct)
  case (1 x n)
  show ?case
  proof (cases "x < 2")
    case True
    then show ?thesis by (simp add: expo_up.simps)
  next
    case False
    then have "expo_up x n = expo_up (x / 2) (n + 1)"
      by (subst expo_up.simps) simp
    with 1 [OF False] show ?thesis by simp
  qed
qed

lemma expo_down_bounds:
  "0 < x \<Longrightarrow> x < 2 \<Longrightarrow>
     x * 2 powi n < 2 powi (expo_down x n + 1) \<and>
     (- 1022 < expo_down x n \<longrightarrow> 2 powi (expo_down x n) \<le> x * 2 powi n) \<and>
     expo_down x n \<le> n \<and> (- 1022 \<le> n \<longrightarrow> - 1022 \<le> expo_down x n)"
proof (induction x n rule: expo_down.induct)
  case (1 x n)
  show ?case
  proof (cases "1 \<le> x \<or> n \<le> - 1022")
    case True
    then have r: "expo_down x n = n" by (simp add: expo_down.simps)
    have "x * 2 powi n < 2 * 2 powi n"
      using 1(3) by simp
    moreover have "- 1022 < n \<longrightarrow> 2 powi n \<le> x * 2 powi n"
      using True by auto
    ultimately show ?thesis
      unfolding r two_powi_Suc by simp
  next
    case False
    then have r: "expo_down x n = expo_down (2 * x) (n - 1)"
      by (subst expo_down.simps) simp
    have pos: "0 < 2 * x" and small: "2 * x < 2" using 1(2) False by simp_all
    have v: "2 * x * 2 powi (n - 1) = x * 2 powi n"
      by (simp add: two_powi_pred)
    from 1(1) [OF False pos small] show ?thesis
      unfolding r v using False by auto
  qed
qed

lemma exponent_props:
  assumes "0 < x"
  shows "- 1022 \<le> exponent x"
    and "x < 2 powi (exponent x + 1)"
    and "- 1022 < exponent x \<Longrightarrow> 2 powi (exponent x) \<le> x"
proof -
  show "- 1022 \<le> exponent x"
  proof (cases "1 \<le> x")
    case True
    then show ?thesis using expo_up_ge [of 0 x] by (simp add: exponent_def)
  next
    case False
    then show ?thesis using expo_down_bounds [of x 0] assms by (simp add: exponent_def)
  qed
  show "x < 2 powi (exponent x + 1)"
  proof (cases "1 \<le> x")
    case True
    then show ?thesis using expo_up_bounds [of x 0] by (simp add: exponent_def)
  next
    case False
    then show ?thesis using expo_down_bounds [of x 0] assms by (simp add: exponent_def)
  qed
  show "2 powi (exponent x) \<le> x" if "- 1022 < exponent x"
  proof (cases "1 \<le> x")
    case True
    then show ?thesis using expo_up_bounds [of x 0] by (simp add: exponent_def)
  next
    case False
    then show ?thesis using expo_down_bounds [of x 0] assms that by (simp add: exponent_def)
  qed
qed

lemma exponent_mono:
  assumes "0 < x" "x \<le> y"
  shows "exponent x \<le> exponent y"
proof (rule ccontr)
  assume "\<not> exponent x \<le> exponent y"
  then have lt: "exponent y + 1 \<le> exponent x" by simp
  have ypos: "0 < y" using assms by simp
  have "- 1022 < exponent x" using lt exponent_props(1) [OF ypos] by simp
  then have "2 powi (exponent x) \<le> x" by (rule exponent_props(3) [OF assms(1)])
  moreover have "y < 2 powi (exponent y + 1)" by (rule exponent_props(2) [OF ypos])
  moreover have "(2::real) powi (exponent y + 1) \<le> 2 powi (exponent x)"
    using lt by (rule two_powi_mono)
  ultimately show False using assms(2) by linarith
qed

lemma exponent_unique:
  assumes "2 powi e \<le> x" "x < 2 powi (e + 1)" "- 1022 \<le> e"
  shows "exponent x = e"
proof -
  have xpos: "0 < x" using assms(1) two_powi_pos [of e] by linarith
  have a: "\<not> exponent x < e"
  proof
    assume "exponent x < e"
    then have "(2::real) powi (exponent x + 1) \<le> 2 powi e" by (intro two_powi_mono) simp
    with exponent_props(2) [OF xpos] assms(1) show False by linarith
  qed
  have b: "\<not> e < exponent x"
  proof
    assume lt: "e < exponent x"
    then have "- 1022 < exponent x" using assms(3) by simp
    then have "2 powi (exponent x) \<le> x" by (rule exponent_props(3) [OF xpos])
    moreover have "(2::real) powi (e + 1) \<le> 2 powi (exponent x)"
      using lt by (intro two_powi_mono) simp
    ultimately show False using assms(2) by linarith
  qed
  from a b show ?thesis by simp
qed

lemma rne_of_int: "rne (of_int n) = n"
  by (simp add: rne_def)

lemma rne_cases: "rne y = \<lfloor>y\<rfloor> \<or> rne y = \<lfloor>y\<rfloor> + 1"
  by (simp add: rne_def Let_def)


lemma rne_mono:
  assumes "y \<le> z"
  shows "rne y \<le> rne z"
proof (cases "\<lfloor>y\<rfloor> = \<lfloor>z\<rfloor>")
  case True
  then show ?thesis using assms by (auto simp: rne_def Let_def)
next
  case False
  then have "\<lfloor>y\<rfloor> + 1 \<le> \<lfloor>z\<rfloor>" using floor_mono [OF assms] by linarith
  moreover have "rne y \<le> \<lfloor>y\<rfloor> + 1" using rne_cases [of y] by auto
  moreover have "\<lfloor>z\<rfloor> \<le> rne z" using rne_cases [of z] by auto
  ultimately show ?thesis by linarith
qed

lemma rne_le: "y \<le> of_int n \<Longrightarrow> rne y \<le> n"
  using rne_mono [of y "of_int n"] by (simp add: rne_of_int)

lemma rne_ge: "of_int n \<le> y \<Longrightarrow> n \<le> rne y"
  using rne_mono [of "of_int n" y] by (simp add: rne_of_int)

lemma fl_pos: "0 < x \<Longrightarrow> fl x = of_int (rne (x / 2 powi (exponent x - 52))) * 2 powi (exponent x - 52)"
  by (simp add: fl_def Let_def)

lemma fl_zero: "fl 0 = 0"
  by (simp add: fl_def)

lemma fl_minus: "fl (- x) = - fl x"
  by (simp add: fl_def Let_def sgn_minus)

lemma fl_nonneg: "0 \<le> x \<Longrightarrow> 0 \<le> fl x"
proof (cases "x = 0")
  case True
  then show ?thesis by (simp add: fl_zero)
next
  case False
  assume "0 \<le> x"
  with False have xpos: "0 < x" by simp
  have "0 \<le> x / 2 powi (exponent x - 52)" using xpos by simp
  then have "0 \<le> rne (x / 2 powi (exponent x - 52))"
    using rne_ge [of 0] by simp
  then show ?thesis by (simp add: fl_pos [OF xpos])
qed

lemma two_powi_split: "(2::real) powi (e + 1) = 2 ^ 53 * 2 powi (e - 52)"
proof -
  have "(2::real) powi (e + 1) = 2 powi (53 + (e - 52))"
    by (rule arg_cong [where f = "\<lambda>n. 2 powi n"]) simp
  also have "\<dots> = 2 powi 53 * 2 powi (e - 52)" by (rule power_int_add) simp
  finally show ?thesis by simp
qed

lemma two_powi_split': "(2::real) powi e = 2 ^ 52 * 2 powi (e - 52)"
proof -
  have "(2::real) powi e = 2 powi (52 + (e - 52))"
    by (rule arg_cong [where f = "\<lambda>n. 2 powi n"]) simp
  also have "\<dots> = 2 powi 52 * 2 powi (e - 52)" by (rule power_int_add) simp
  finally show ?thesis by simp
qed

lemma fl_upper:
  assumes "0 < x"
  shows "fl x \<le> 2 powi (exponent x + 1)"
proof -
  define u :: real where "u = 2 powi (exponent x - 52)"
  have upos: "0 < u" by (simp add: u_def)
  have "x < 2 ^ 53 * u" using exponent_props(2) [OF assms] two_powi_split [of "exponent x"]
    by (simp add: u_def)
  then have "x / u \<le> of_int (2 ^ 53)" using upos by (simp add: field_simps)
  then have "rne (x / u) \<le> 2 ^ 53" by (rule rne_le)
  then have "of_int (rne (x / u)) \<le> (2 ^ 53 :: real)"
    by (metis of_int_le_iff of_int_numeral of_int_power)
  then have "of_int (rne (x / u)) * u \<le> 2 ^ 53 * u" using upos by simp
  then show ?thesis
    unfolding fl_pos [OF assms] two_powi_split [of "exponent x"] u_def .
qed

lemma fl_lower:
  assumes "0 < x" "2 powi (exponent x) \<le> x"
  shows "2 powi (exponent x) \<le> fl x"
proof -
  define u :: real where "u = 2 powi (exponent x - 52)"
  have upos: "0 < u" by (simp add: u_def)
  have "2 ^ 52 * u \<le> x" using assms(2) two_powi_split' [of "exponent x"]
    by (simp add: u_def)
  then have "of_int (2 ^ 52) \<le> x / u" using upos by (simp add: field_simps)
  then have "2 ^ 52 \<le> rne (x / u)" by (rule rne_ge)
  then have "(2 ^ 52 :: real) \<le> of_int (rne (x / u))"
    by (metis of_int_le_iff of_int_numeral of_int_power)
  then have "2 ^ 52 * u \<le> of_int (rne (x / u)) * u" using upos by simp
  then show ?thesis
    unfolding fl_pos [OF assms(1)] two_powi_split' [of "exponent x"] u_def .
qed

lemma fl_pos_mono:
  assumes "0 < x" "x \<le> y"
  shows "fl x \<le> fl y"
proof -
  have ypos: "0 < y" using assms by simp
  have le: "exponent x \<le> exponent y" by (rule exponent_mono [OF assms])
  show ?thesis
  proof (cases "exponent x = exponent y")
    case True
    define u :: real where "u = 2 powi (exponent y - 52)"
    have upos: "0 < u" by (simp add: u_def)
    have "x / u \<le> y / u" using assms(2) upos by (simp add: divide_right_mono)
    then have "rne (x / u) \<le> rne (y / u)" by (rule rne_mono)
    then have "of_int (rne (x / u)) * u \<le> of_int (rne (y / u)) * u"
      using upos by simp
    then show ?thesis
      unfolding fl_pos [OF assms(1)] fl_pos [OF ypos] True u_def .
  next
    case False
    with le have lt: "exponent x + 1 \<le> exponent y" by simp
    then have "- 1022 < exponent y" using exponent_props(1) [OF assms(1)] by simp
    then have "2 powi (exponent y) \<le> y" by (rule exponent_props(3) [OF ypos])
    then have "2 powi (exponent y) \<le> fl y" by (rule fl_lower [OF ypos])
    moreover have "fl x \<le> 2 powi (exponent x + 1)" by (rule fl_upper [OF assms(1)])
    moreover have "(2::real) powi (exponent x + 1) \<le> 2 powi (exponent y)"
      using lt by (rule two_powi_mono)
    ultimately show ?thesis by linarith
  qed
qed

lemma fl_mono:
  assumes "x \<le> y"
  shows "fl x \<le> fl y"
proof -
  consider "0 < x" | "x \<le> 0" "0 \<le> y" | "y < 0" by linarith
  then show ?thesis
  proof cases
    case 1
    then show ?thesis using assms by (rule fl_pos_mono)
  next
    case 2
    have "0 \<le> fl (- x)" using 2(1) by (intro fl_nonneg) simp
    then have "fl x \<le> 0" by (simp add: fl_minus)
    moreover have "0 \<le> fl y" using 2(2) by (rule fl_nonneg)
    ultimately show ?thesis by linarith
  next
    case 3
    then have "0 < - y" "- y \<le> - x" using assms by simp_all
    then have "fl (- y) \<le> fl (- x)" by (rule fl_pos_mono)
    then show ?thesis by (simp add: fl_minus)
  qed
qed

lemma fl_fixed:
  assumes "0 < z" "z / 2 powi (exponent z - 52) = of_int N"
  shows "fl z = z"
  unfolding fl_pos [OF assms(1)] assms(2) rne_of_int
  using assms(2) by (simp add: field_simps)

lemma fl_exact:
  assumes "0 < M" "M \<le> 2 ^ 53" "- 1022 \<le> e"
  shows "fl (of_int M * 2 powi (e - 52)) = of_int M * 2 powi (e - 52)"
proof -
  define z :: real where "z = of_int M * 2 powi (e - 52)"
  have zpos: "0 < z" using assms(1) by (simp add: z_def)
  have "\<exists>N. z / 2 powi (exponent z - 52) = of_int N"
  proof (cases "M = 2 ^ 53")
    case True
    then have zeq: "z = 2 powi (e + 1)"
      by (simp add: z_def two_powi_split [of e])
    have "z < 2 powi (e + 1 + 1)"
      unfolding two_powi_Suc [of "e + 1"] zeq using two_powi_pos [of "e + 1"] by linarith
    moreover have "2 powi (e + 1) \<le> z" by (simp add: zeq)
    moreover have "- 1022 \<le> e + 1" using assms(3) by simp
    ultimately have "exponent z = e + 1"
      by (intro exponent_unique)
    then have "z / 2 powi (exponent z - 52) = 2 powi (e + 1) / 2 powi (e + 1 - 52)"
      by (simp add: zeq)
    also have "\<dots> = 2 powi ((e + 1) - (e + 1 - 52))"
      by (rule power_int_diff [symmetric]) simp
    also have "\<dots> = 2 powi 52"
      by (rule arg_cong [where f = "\<lambda>n. 2 powi n"]) simp
    also have "\<dots> = of_int (2 ^ 52)" by simp
    finally show ?thesis by blast
  next
    case False
    with assms(2) have "M < 2 ^ 53" by simp
    then have "real_of_int M < 2 ^ 53"
      by (metis of_int_less_iff of_int_numeral of_int_power)
    then have "z < 2 powi (e + 1)"
      unfolding z_def two_powi_split [of e] by simp
    have le: "exponent z \<le> e"
    proof (rule ccontr)
      assume "\<not> exponent z \<le> e"
      then have lt: "e + 1 \<le> exponent z" by simp
      then have "- 1022 < exponent z" using assms(3) by simp
      then have "2 powi (exponent z) \<le> z" by (rule exponent_props(3) [OF zpos])
      moreover have "(2::real) powi (e + 1) \<le> 2 powi (exponent z)"
        using lt by (rule two_powi_mono)
      ultimately show False using \<open>z < 2 powi (e + 1)\<close> by linarith
    qed
    define k where "k = nat (e - exponent z)"
    have keq: "e - 52 = int k + (exponent z - 52)" using le by (simp add: k_def)
    define w :: real where "w = 2 powi (exponent z - 52)"
    have wpos: "0 < w" by (simp add: w_def)
    have "(2::real) powi (e - 52) = 2 powi (int k) * 2 powi (exponent z - 52)"
      unfolding keq by (rule power_int_add) simp
    then have "z = of_int M * 2 ^ k * w"
      by (simp add: z_def w_def)
    then have "z / w = of_int M * 2 ^ k"
      using wpos by simp
    then have "z / 2 powi (exponent z - 52) = of_int M * 2 ^ k"
      by (simp add: w_def)
    also have "\<dots> = of_int (M * 2 ^ k)" by simp
    finally show ?thesis by blast
  qed
  then obtain N where "z / 2 powi (exponent z - 52) = of_int N" ..
  with zpos have "fl z = z" by (rule fl_fixed)
  then show ?thesis by (simp add: z_def)
qed

lemma fl_idem: "fl (fl x) = fl x"
proof -
  have pos: "fl (fl x) = fl x" if xpos: "0 < x" for x
  proof -
    define M where "M = rne (x / 2 powi (exponent x - 52))"
    have flx: "fl x = of_int M * 2 powi (exponent x - 52)"
      by (simp add: fl_pos [OF xpos] M_def)
    have "x < 2 ^ 53 * 2 powi (exponent x - 52)"
      using exponent_props(2) [OF xpos] two_powi_split [of "exponent x"] by simp
    then have "x / 2 powi (exponent x - 52) \<le> of_int (2 ^ 53)"
      by (simp add: field_simps)
    then have hi: "M \<le> 2 ^ 53" unfolding M_def by (rule rne_le)
    have "0 \<le> x / 2 powi (exponent x - 52)" using xpos by simp
    then have "0 \<le> M" unfolding M_def using rne_ge [of 0] by simp
    show ?thesis
    proof (cases "M = 0")
      case True
      then show ?thesis by (simp add: flx fl_zero)
    next
      case False
      with \<open>0 \<le> M\<close> have "0 < M" by simp
      then show ?thesis
        unfolding flx using hi exponent_props(1) [OF xpos] by (rule fl_exact)
    qed
  qed
  consider "0 < x" | "x = 0" | "x < 0" by linarith
  then show ?thesis
  proof cases
    case 1
    then show ?thesis by (rule pos)
  next
    case 2
    then show ?thesis by (simp add: fl_zero)
  next
    case 3
    then have "fl (fl (- x)) = fl (- x)" by (intro pos) simp
    then show ?thesis by (simp add: fl_minus)
  qed
qed


lemma fl_int:
  assumes "\<bar>n\<bar> \<le> 2 ^ 53"
  shows "fl (of_int n) = of_int n"
proof -
  have pos: "fl (of_int m) = of_int m" if "0 < m" "m \<le> 2 ^ 53" for m :: int
    using fl_exact [of m 52] that by simp
  consider "0 < n" | "n = 0" | "n < 0" by linarith
  then show ?thesis
  proof cases
    case 1
    then show ?thesis using assms by (intro pos) simp_all
  next
    case 2
    then show ?thesis by (simp add: fl_zero)
  next
    case 3
    then have "fl (of_int (- n)) = of_int (- n)" using assms by (intro pos) simp_all
    then show ?thesis by (simp add: fl_minus)
  qed
qed

lemma fl_le_int: "x \<le> of_int n \<Longrightarrow> \<bar>n\<bar> \<le> 2 ^ 53 \<Longrightarrow> fl x \<le> of_int n"
  using fl_mono [of x "of_int n"] by (simp add: fl_int)

lemma fl_ge_int: "of_int n \<le> x \<Longrightarrow> \<bar>n\<bar> \<le> 2 ^ 53 \<Longrightarrow> of_int n \<le> fl x"
  using fl_mono [of "of_int n" x] by (simp add: fl_int)

lemma fl_between:
  assumes "of_int m \<le> x" "x \<le> of_int n" "\<bar>m\<bar> \<le> 2 ^ 53" "\<bar>n\<bar> \<le> 2 ^ 53"
  shows "of_int m \<le> fl x \<and> fl x \<le> of_int n"
  using assms by (simp add: fl_le_int fl_ge_int)

lemma fl_unit: "0 \<le> x \<Longrightarrow> x \<le> 1 \<Longrightarrow> 0 \<le> fl x \<and> fl x \<le> 1"
  using fl_between [of 0 x 1] by simp

lemma fl_range: "real_of_int m \<le> x \<Longrightarrow> x \<le> real_of_int n \<Longrightarrow> \<bar>m\<bar> \<le> 1000 \<Longrightarrow> \<bar>n\<bar> \<le> 1000
   \<Longrightarrow> real_of_int m \<le> fl x \<and> fl x \<le> real_of_int n"
  by (rule fl_between) simp_all

lemma Math_round_mono: "x \<le> y \<Longrightarrow> Math_round x \<le> Math_round y"
  by (simp add: Math_round_def floor_mono)

lemma Math_round_int: "Math_round (of_int n) = n"
  unfolding Math_round_def by linarith


lemma toPercent_range:
  assumes "0 \<le> M" "M \<le> 255"
  shows "0 \<le> toPercent M \<and> toPercent M \<le> 100"
proof -
  have "0 \<le> real_of_int M / 255" "real_of_int M / 255 \<le> 1" using assms by simp_all
  then have a: "0 \<le> js_div (of_int M) 255 \<and> js_div (of_int M) 255 \<le> 1"
    unfolding js_div_def by (rule fl_unit)
  then have "real_of_int 0 \<le> js_div (of_int M) 255 * 100" "js_div (of_int M) 255 * 100 \<le> real_of_int 100"
    by simp_all
  then have "real_of_int 0 \<le> js_mul (js_div (of_int M) 255) 100 \<and> js_mul (js_div (of_int M) 255) 100 \<le> real_of_int 100"
    unfolding js_mul_def by (rule fl_range; simp)
  then have "Math_round (of_int 0) \<le> toPercent M" "toPercent M \<le> Math_round (of_int 100)"
    unfolding toPercent_def by (simp_all add: Math_round_mono)
  then show ?thesis unfolding Math_round_int by simp
qed


lemma js_rem_small: "\<bar>y\<bar> \<le> 1 \<Longrightarrow> js_rem y 6 = y"
proof -
  assume a: "\<bar>y\<bar> \<le> 1"
  have "js_trunc (y / 6) = 0"
  proof (cases "0 \<le> y / 6")
    case True
    then have "\<lfloor>y / 6\<rfloor> = 0" using a by (intro floor_eq_iff [THEN iffD2]) auto
    with True show ?thesis by (simp add: js_trunc_def)
  next
    case False
    then have "\<lceil>y / 6\<rceil> = 0" using a by (intro ceiling_eq_iff [THEN iffD2]) auto
    with False show ?thesis by (simp add: js_trunc_def)
  qed
  then show ?thesis by (simp add: js_rem_def)
qed

lemma channel_unit:
  assumes "0 \<le> R" "R \<le> 255"
  shows "0 \<le> js_div (of_int R) 255 \<and> js_div (of_int R) 255 \<le> 1"
proof -
  have "0 \<le> real_of_int R / 255" "real_of_int R / 255 \<le> 1" using assms by simp_all
  then show ?thesis unfolding js_div_def by (rule fl_unit)
qed

lemma channel_mono: "R \<le> S \<Longrightarrow> js_div (of_int R) 255 \<le> js_div (of_int S) 255"
  unfolding js_div_def by (rule fl_mono) (simp add: divide_right_mono)

lemma channel_max:
  "max (max (js_div (of_int R) 255) (js_div (of_int G) 255)) (js_div (of_int B) 255)
     = js_div (of_int (max (max R G) B)) 255"
proof -
  have m: "max (js_div (of_int x) 255) (js_div (of_int y) 255) = js_div (of_int (max x y)) 255"
    for x y :: int
    using channel_mono [of x y] channel_mono [of y x] by (auto simp: max_def)
  show ?thesis by (simp only: m)
qed

text \<open>The hue computed by \<open>rgbToHsb\<close> before rounding, as a function of the scaled channels.\<close>

lemma hue_bounds:
  fixes r' g' b' :: real
  defines "mx \<equiv> max (max r' g') b'" and "mn \<equiv> min (min r' g') b'"
  defines "delta \<equiv> js_sub mx mn"
  defines "h0 \<equiv> (if mx = r' then js_rem (js_div (js_sub g' b') delta) 6
                  else if mx = g' then js_add (js_div (js_sub b' r') delta) 2
                  else js_add (js_div (js_sub r' g') delta) 4)"
  defines "h1 \<equiv> js_mul h0 60"
  assumes nz: "delta \<noteq> 0"
  shows "0 \<le> (if h1 < 0 then js_add h1 360 else h1) \<and> (if h1 < 0 then js_add h1 360 else h1) \<le> 360"
proof -
  have dpos: "0 < delta"
  proof -
    have "0 \<le> mx - mn" by (auto simp: mx_def mn_def)
    then have "0 \<le> delta" unfolding delta_def js_sub_def by (rule fl_nonneg)
    with nz show ?thesis by simp
  qed
  have diff: "\<bar>js_div (js_sub p q) delta\<bar> \<le> 1"
    if "mn \<le> p" "p \<le> mx" "mn \<le> q" "q \<le> mx" for p q
  proof -
    have "p - q \<le> mx - mn" using that by linarith
    then have a: "js_sub p q \<le> delta" unfolding js_sub_def delta_def by (rule fl_mono)
    have "- (mx - mn) \<le> p - q" using that by linarith
    then have "fl (- (mx - mn)) \<le> fl (p - q)" by (rule fl_mono)
    then have b: "- delta \<le> js_sub p q"
      unfolding fl_minus [of "mx - mn"] js_sub_def delta_def .
    have "real_of_int (- 1) \<le> js_sub p q / delta" "js_sub p q / delta \<le> real_of_int 1"
      using a b dpos by (simp_all add: field_simps)
    then have "real_of_int (- 1) \<le> fl (js_sub p q / delta) \<and> fl (js_sub p q / delta) \<le> real_of_int 1"
      by (rule fl_range; simp)
    then show ?thesis by (simp add: js_div_def abs_le_iff)
  qed
  have r: "mn \<le> r'" "r' \<le> mx" and g: "mn \<le> g'" "g' \<le> mx" and b: "mn \<le> b'" "b' \<le> mx"
    by (auto simp: mx_def mn_def)
  consider (R) "mx = r'" | (G) "mx \<noteq> r'" "mx = g'" | (B) "mx \<noteq> r'" "mx \<noteq> g'" by blast
  then show ?thesis
  proof cases
    case R
    define y where "y = js_div (js_sub g' b') delta"
    have y: "\<bar>y\<bar> \<le> 1" unfolding y_def by (rule diff [OF g b])
    have "h0 = y" using R js_rem_small [OF y] by (simp add: h0_def y_def)
    then have h1: "h1 = fl (y * 60)" by (simp add: h1_def js_mul_def)
    have "real_of_int (- 60) \<le> y * 60" "y * 60 \<le> real_of_int 60" using y by (simp_all add: abs_le_iff)
    then have "real_of_int (- 60) \<le> fl (y * 60) \<and> fl (y * 60) \<le> real_of_int 60"
      by (rule fl_range; simp)
    then have h1r: "- 60 \<le> h1" "h1 \<le> 60" by (simp_all add: h1)
    show ?thesis
    proof (cases "h1 < 0")
      case True
      have "real_of_int 0 \<le> h1 + 360" "h1 + 360 \<le> real_of_int 360" using True h1r by simp_all
      then have "real_of_int 0 \<le> fl (h1 + 360) \<and> fl (h1 + 360) \<le> real_of_int 360"
        by (rule fl_range; simp)
      with True show ?thesis by (simp add: js_add_def)
    next
      case False
      with h1r show ?thesis by simp
    qed
  next
    case G
    define y where "y = js_div (js_sub b' r') delta"
    have y: "\<bar>y\<bar> \<le> 1" unfolding y_def by (rule diff [OF b r])
    have h0: "h0 = fl (y + 2)" using G by (simp add: h0_def y_def js_add_def)
    have "real_of_int 1 \<le> y + 2" "y + 2 \<le> real_of_int 3" using y by (simp_all add: abs_le_iff)
    then have "real_of_int 1 \<le> fl (y + 2) \<and> fl (y + 2) \<le> real_of_int 3"
      by (rule fl_range; simp)
    then have "real_of_int 60 \<le> h0 * 60" "h0 * 60 \<le> real_of_int 180" by (simp_all add: h0)
    then have "real_of_int 60 \<le> fl (h0 * 60) \<and> fl (h0 * 60) \<le> real_of_int 180"
      by (rule fl_range; simp)
    then show ?thesis by (simp add: h1_def js_mul_def)
  next
    case B
    define y where "y = js_div (js_sub r' g') delta"
    have y: "\<bar>y\<bar> \<le> 1" unfolding y_def by (rule diff [OF r g])
    have h0: "h0 = fl (y + 4)" using B by (simp add: h0_def y_def js_add_def)
    have "real_of_int 3 \<le> y + 4" "y + 4 \<le> real_of_int 5" using y by (simp_all add: abs_le_iff)
    then have "real_of_int 3 \<le> fl (y + 4) \<and> fl (y + 4) \<le> real_of_int 5"
      by (rule fl_range; simp)
    then have "real_of_int 180 \<le> h0 * 60" "h0 * 60 \<le> real_of_int 300" by (simp_all add: h0)
    then have "real_of_int 180 \<le> fl (h0 * 60) \<and> fl (h0 * 60) \<le> real_of_int 300"
      by (rule fl_range; simp)
    then show ?thesis by (simp add: h1_def js_mul_def)
  qed
qed

lemma Math_round_range:
  "real_of_int m \<le> x \<Longrightarrow> x \<le> real_of_int n \<Longrightarrow> m \<le> Math_round x \<and> Math_round x \<le> n"
  using Math_round_mono [of "of_int m" x] Math_round_mono [of x "of_int n"]
  by (simp add: Math_round_int)

lemma rgbToHsb_hue:
  "0 \<le> hue (rgbToHsb c) \<and> hue (rgbToHsb c) \<le> 360"
proof -
  define r' g' b' where "r' = js_div (of_int (rgb_r c)) 255"
    and "g' = js_div (of_int (rgb_g c)) 255" and "b' = js_div (of_int (rgb_b c)) 255"
  define mx mn where "mx = max (max r' g') b'" and "mn = min (min r' g') b'"
  define delta where "delta = js_sub mx mn"
  define h0 where "h0 = (if mx = r' then js_rem (js_div (js_sub g' b') delta) 6
                  else if mx = g' then js_add (js_div (js_sub b' r') delta) 2
                  else js_add (js_div (js_sub r' g') delta) 4)"
  define h1 where "h1 = js_mul h0 60"
  define hue' where "hue' = (if delta \<noteq> 0 then (if h1 < 0 then js_add h1 360 else h1) else 0)"
  have eq: "hue (rgbToHsb c) = of_int (Math_round hue')"
    unfolding rgbToHsb_def Let_def hue'_def h1_def h0_def delta_def mx_def mn_def r'_def g'_def b'_def
    by (simp only: HSBColor.select_convs)
  have "real_of_int 0 \<le> hue' \<and> hue' \<le> real_of_int 360"
  proof (cases "delta = 0")
    case True
    then show ?thesis by (simp add: hue'_def)
  next
    case False
    then show ?thesis
      using hue_bounds [of r' g' b']
      unfolding hue'_def h1_def h0_def delta_def mx_def mn_def
      by (simp only: if_True if_False not_False_eq_True of_int_0 of_int_numeral)
  qed
  then have "0 \<le> Math_round hue' \<and> Math_round hue' \<le> 360"
    using Math_round_range [of 0 hue' 360] by simp
  then show ?thesis unfolding eq by simp
qed

lemma rgbToHsb_brightness:
  "brightness (rgbToHsb c) = of_int (toPercent (max (max (rgb_r c) (rgb_g c)) (rgb_b c)))"
  unfolding rgbToHsb_def Let_def toPercent_def
  by (simp only: HSBColor.select_convs channel_max)

lemma rgbToHsb_saturation:
  assumes "0 \<le> rgb_r c" "0 \<le> rgb_g c" "0 \<le> rgb_b c" "rgb_r c \<le> 255" "rgb_g c \<le> 255" "rgb_b c \<le> 255"
  shows "0 \<le> saturation (rgbToHsb c) \<and> saturation (rgbToHsb c) \<le> 100"
proof -
  define r' g' b' where "r' = js_div (of_int (rgb_r c)) 255"
    and "g' = js_div (of_int (rgb_g c)) 255" and "b' = js_div (of_int (rgb_b c)) 255"
  define mx mn where "mx = max (max r' g') b'" and "mn = min (min r' g') b'"
  define delta where "delta = js_sub mx mn"
  define sat' where "sat' = (if mx = 0 then 0 else js_mul (js_div delta mx) 100)"
  have eq: "saturation (rgbToHsb c) = of_int (Math_round sat')"
    unfolding rgbToHsb_def Let_def sat'_def delta_def mx_def mn_def r'_def g'_def b'_def
    by (simp only: HSBColor.select_convs)
  have u: "0 \<le> r'" "0 \<le> g'" "0 \<le> b'"
    using channel_unit assms by (simp_all add: r'_def g'_def b'_def)
  have mxfl: "fl mx = mx"
    by (auto simp: mx_def max_def r'_def g'_def b'_def js_div_def fl_idem)
  have mn0: "0 \<le> mn" using u by (simp add: mn_def)
  have mx0: "0 \<le> mx" using u by (simp add: mx_def)
  have "0 \<le> mx - mn" by (auto simp: mx_def mn_def)
  then have d0: "0 \<le> delta" unfolding delta_def js_sub_def by (rule fl_nonneg)
  have "fl (mx - mn) \<le> fl mx" using mn0 by (intro fl_mono) simp
  then have dle: "delta \<le> mx" by (simp add: delta_def js_sub_def mxfl)
  have "real_of_int 0 \<le> sat' \<and> sat' \<le> real_of_int 100"
  proof (cases "mx = 0")
    case True
    then show ?thesis by (simp add: sat'_def)
  next
    case False
    with mx0 have mxpos: "0 < mx" by simp
    have "0 \<le> delta / mx" "delta / mx \<le> 1" using d0 dle mxpos by simp_all
    then have "0 \<le> fl (delta / mx) \<and> fl (delta / mx) \<le> 1" by (rule fl_unit)
    then have "real_of_int 0 \<le> fl (delta / mx) * 100" "fl (delta / mx) * 100 \<le> real_of_int 100"
      by simp_all
    then have "real_of_int 0 \<le> fl (fl (delta / mx) * 100) \<and> fl (fl (delta / mx) * 100) \<le> real_of_int 100"
      by (rule fl_range; simp)
    with False show ?thesis by (simp add: sat'_def js_mul_def js_div_def)
  qed
  then have "0 \<le> Math_round sat' \<and> Math_round sat' \<le> 100"
    using Math_round_range [of 0 sat' 100] by simp
  then show ?thesis unfolding eq by simp
qed


lemma js_rem_sector:
  assumes "0 \<le> n" "n \<le> 6"
  shows "js_rem (of_int n) 6 \<in> {0, 1, 2, 3, 4, 5}"
proof -
  from assms consider "n = 0" | "n = 1" | "n = 2" | "n = 3" | "n = 4" | "n = 5" | "n = 6"
    by linarith
  then show ?thesis
    by cases (simp_all add: js_rem_def js_trunc_def)
qed

lemma sector_pick:
  fixes v p q t k :: real
  assumes "0 \<le> p" "p \<le> v" "0 \<le> q" "q \<le> v" "0 \<le> t" "t \<le> v"
    and "k \<in> {0, 1, 2, 3, 4, 5}"
  defines "tr \<equiv> (if k = 0 then (v, t, p)
             else if k = 1 then (q, v, p)
             else if k = 2 then (p, v, t)
             else if k = 3 then (p, q, v)
             else if k = 4 then (t, p, v)
             else if k = 5 then (v, p, q)
             else (0, 0, 0))"
  shows "\<exists>a b c. tr = (a, b, c) \<and> 0 \<le> a \<and> a \<le> v \<and> 0 \<le> b \<and> b \<le> v \<and> 0 \<le> c \<and> c \<le> v
           \<and> (a = v \<or> b = v \<or> c = v) \<and> (p = v \<and> q = v \<and> t = v \<longrightarrow> a = v \<and> b = v \<and> c = v)"
  using assms(1-7) unfolding tr_def by auto

lemma scale_mono: "x \<le> y \<Longrightarrow> Math_round (js_mul x 255) \<le> Math_round (js_mul y 255)"
  unfolding js_mul_def by (intro Math_round_mono fl_mono) simp

lemma scale_zero: "Math_round (js_mul 0 255) = 0"
  by (simp add: js_mul_def fl_zero Math_round_def)

lemma hsbToRgb_channels:
  assumes "0 \<le> hue c" "hue c \<le> 360" "0 \<le> saturation c" "saturation c \<le> 100"
    and "0 \<le> brightness c" "brightness c \<le> 100"
  shows "\<exists>x y z. hsbToRgb c = \<lparr>rgb_r = x, rgb_g = y, rgb_b = z\<rparr>
           \<and> 0 \<le> x \<and> x \<le> fromPercent (brightness c)
           \<and> 0 \<le> y \<and> y \<le> fromPercent (brightness c)
           \<and> 0 \<le> z \<and> z \<le> fromPercent (brightness c)
           \<and> max (max x y) z = fromPercent (brightness c)
           \<and> fromPercent (brightness c) \<le> 255
           \<and> (saturation c = 0 \<longrightarrow> x = fromPercent (brightness c) \<and> y = fromPercent (brightness c)
                  \<and> z = fromPercent (brightness c))"
proof -
  define h s v where "h = js_div (hue c) 360" and "s = js_div (saturation c) 100"
    and "v = js_div (brightness c) 100"
  define i :: real where "i = of_int (Math_floor (js_mul h 6))"
  define f where "f = js_sub (js_mul h 6) i"
  define p q t where "p = js_mul v (js_sub 1 s)" and "q = js_mul v (js_sub 1 (js_mul f s))"
    and "t = js_mul v (js_sub 1 (js_mul (js_sub 1 f) s))"
  define k where "k = js_rem i 6"
  define tr where "tr = (if k = 0 then (v, t, p)
             else if k = 1 then (q, v, p)
             else if k = 2 then (p, v, t)
             else if k = 3 then (p, q, v)
             else if k = 4 then (t, p, v)
             else if k = 5 then (v, p, q)
             else (0, 0, 0))"
  have eq: "hsbToRgb c = (case tr of (r', g', b') \<Rightarrow>
      \<lparr>rgb_r = Math_round (js_mul r' 255), rgb_g = Math_round (js_mul g' 255),
       rgb_b = Math_round (js_mul b' 255)\<rparr>)"
    unfolding hsbToRgb_def Let_def tr_def k_def p_def q_def t_def f_def i_def h_def s_def v_def
    by (rule refl)
  have unit: "0 \<le> fl (x / of_int n) \<and> fl (x / of_int n) \<le> 1" if "0 \<le> x" "x \<le> of_int n" "0 < n" for x n
    using that by (intro fl_unit) simp_all
  have h: "0 \<le> h" "h \<le> 1" using unit [of "hue c" 360] assms by (simp_all add: h_def js_div_def)
  have s: "0 \<le> s" "s \<le> 1" using unit [of "saturation c" 100] assms by (simp_all add: s_def js_div_def)
  have v: "0 \<le> v" "v \<le> 1" using unit [of "brightness c" 100] assms by (simp_all add: v_def js_div_def)
  have vfl: "fl v = v" by (simp add: v_def js_div_def fl_idem)
  have "real_of_int 0 \<le> h * 6" "h * 6 \<le> real_of_int 6" using h by simp_all
  then have "real_of_int 0 \<le> fl (h * 6) \<and> fl (h * 6) \<le> real_of_int 6" by (rule fl_range; simp)
  then have h6: "0 \<le> js_mul h 6" "js_mul h 6 \<le> 6" by (simp_all add: js_mul_def)
  define n where "n = Math_floor (js_mul h 6)"
  have n: "0 \<le> n" "n \<le> 6" using h6 unfolding n_def Math_floor_def by linarith+
  have i: "i = of_int n" by (simp add: i_def n_def)
  have "0 \<le> js_mul h 6 - i" "js_mul h 6 - i \<le> 1"
    unfolding i n_def Math_floor_def by linarith+
  then have f: "0 \<le> f" "f \<le> 1" using fl_unit [of "js_mul h 6 - i"] by (simp_all add: f_def js_sub_def)
  have k: "k \<in> {0, 1, 2, 3, 4, 5}" unfolding k_def i using n by (rule js_rem_sector)
  have scaled: "0 \<le> js_mul v (js_sub 1 w) \<and> js_mul v (js_sub 1 w) \<le> v" if "0 \<le> w" "w \<le> 1" for w
  proof -
    have "0 \<le> 1 - w" "1 - w \<le> 1" using that by simp_all
    then have a: "0 \<le> fl (1 - w)" "fl (1 - w) \<le> 1" using fl_unit by simp_all
    have "0 \<le> v * fl (1 - w)" using a v by simp
    then have lo: "0 \<le> fl (v * fl (1 - w))" by (rule fl_nonneg)
    have "v * fl (1 - w) \<le> v" using a v by (simp add: mult_left_le)
    then have "fl (v * fl (1 - w)) \<le> fl v" by (rule fl_mono)
    with lo show ?thesis by (simp add: js_mul_def js_sub_def vfl)
  qed
  have prod: "0 \<le> js_mul a s \<and> js_mul a s \<le> 1" if "0 \<le> a" "a \<le> 1" for a
  proof -
    have "0 \<le> a * s" "a * s \<le> 1" using that s by (simp_all add: mult_le_one)
    then show ?thesis unfolding js_mul_def by (rule fl_unit)
  qed
  have p: "0 \<le> p" "p \<le> v" using scaled [of s] s by (simp_all add: p_def)
  have q: "0 \<le> q" "q \<le> v" using scaled [of "js_mul f s"] prod [of f] f by (simp_all add: q_def)
  have f1: "0 \<le> js_sub 1 f" "js_sub 1 f \<le> 1"
    using fl_unit [of "1 - f"] f by (simp_all add: js_sub_def)
  have t: "0 \<le> t" "t \<le> v"
    using scaled [of "js_mul (js_sub 1 f) s"] prod [of "js_sub 1 f"] f1 by (simp_all add: t_def)
  have one: "fl 1 = 1" using fl_int [of 1] by simp
  have grey: "p = v \<and> q = v \<and> t = v" if "saturation c = 0"
  proof -
    have s0: "s = 0" using that by (simp add: s_def js_div_def fl_zero)
    show ?thesis
      by (simp add: p_def q_def t_def s0 js_mul_def js_sub_def fl_zero one vfl)
  qed
  from sector_pick [OF p(1) p(2) q(1) q(2) t(1) t(2) k]
  obtain a b' c' where tr: "tr = (a, b', c')"
    and bounds: "0 \<le> a" "a \<le> v" "0 \<le> b'" "b' \<le> v" "0 \<le> c'" "c' \<le> v"
    and top: "a = v \<or> b' = v \<or> c' = v"
    and all: "p = v \<and> q = v \<and> t = v \<longrightarrow> a = v \<and> b' = v \<and> c' = v"
    unfolding tr_def by blast
  define S where "S = (\<lambda>x. Math_round (js_mul x 255))"
  have V: "fromPercent (brightness c) = S v" by (simp add: fromPercent_def S_def v_def)
  have S0: "S 0 = 0" by (simp add: S_def scale_zero)
  have Sm: "S x \<le> S y" if "x \<le> y" for x y unfolding S_def using that by (rule scale_mono)
  have S1: "S 1 = 255" by (simp add: S_def js_mul_def fl_int [of 255, simplified] Math_round_def)
  have out: "hsbToRgb c = \<lparr>rgb_r = S a, rgb_g = S b', rgb_b = S c'\<rparr>"
    by (simp add: eq tr S_def)
  have ch: "0 \<le> S a" "S a \<le> S v" "0 \<le> S b'" "S b' \<le> S v" "0 \<le> S c'" "S c' \<le> S v"
    using Sm [of 0 a] Sm [of a v] Sm [of 0 b'] Sm [of b' v] Sm [of 0 c'] Sm [of c' v] bounds
    by (simp_all add: S0)
  have mx: "max (max (S a) (S b')) (S c') = S v"
    using top ch by (auto simp: max_def)
  have V255: "S v \<le> 255" using Sm [of v 1] v by (simp add: S1)
  have g: "saturation c = 0 \<longrightarrow> S a = S v \<and> S b' = S v \<and> S c' = S v"
    using grey all by simp
  show ?thesis
    unfolding V using out ch mx V255 g by blast
qed

lemma rgbToHsb_brightness_range:
  assumes "rgb8 x"
  shows "0 \<le> brightness (rgbToHsb x) \<and> brightness (rgbToHsb x) \<le> 100"
proof -
  define M where "M = max (max (rgb_r x) (rgb_g x)) (rgb_b x)"
  have "0 \<le> M" "M \<le> 255" using assms by (auto simp: M_def rgb8_def)
  then have "0 \<le> toPercent M \<and> toPercent M \<le> 100" by (rule toPercent_range)
  then show ?thesis by (simp add: rgbToHsb_brightness M_def)
qed

text \<open>
  Claim C5. For a hue in \<open>[0, 360)\<close> and saturation and brightness in \<open>[0, 100]\<close>, every
  channel of \<open>hsbToRgb\<close> lies in \<open>[0, 255]\<close>. For channels in \<open>[0, 255]\<close>, \<open>rgbToHsb\<close>
  gives saturation and brightness in \<open>[0, 100]\<close> and a hue in \<open>[0, 360]\<close>: the bound 360 is
  reached, since a hue of 359.5 or more is rounded up.
\<close>

theorem conversion_ranges:
  "(0 \<le> hue c \<and> hue c < 360 \<and> 0 \<le> saturation c \<and> saturation c \<le> 100
      \<and> 0 \<le> brightness c \<and> brightness c \<le> 100
      \<longrightarrow> rgb8 (hsbToRgb c))
   \<and> (rgb8 x \<longrightarrow>
        0 \<le> hue (rgbToHsb x) \<and> hue (rgbToHsb x) \<le> 360
      \<and> 0 \<le> saturation (rgbToHsb x) \<and> saturation (rgbToHsb x) \<le> 100
      \<and> 0 \<le> brightness (rgbToHsb x) \<and> brightness (rgbToHsb x) \<le> 100)"
proof (intro conjI impI)
  assume a: "0 \<le> hue c \<and> hue c < 360 \<and> 0 \<le> saturation c \<and> saturation c \<le> 100
      \<and> 0 \<le> brightness c \<and> brightness c \<le> 100"
  then have "hue c \<le> 360" by simp
  with a hsbToRgb_channels [of c]
  obtain r' g' b' where "hsbToRgb c = \<lparr>rgb_r = r', rgb_g = g', rgb_b = b'\<rparr>"
    "0 \<le> r'" "r' \<le> fromPercent (brightness c)" "0 \<le> g'" "g' \<le> fromPercent (brightness c)"
    "0 \<le> b'" "b' \<le> fromPercent (brightness c)" "fromPercent (brightness c) \<le> 255"
    by blast
  then show "rgb8 (hsbToRgb c)" by (simp add: rgb8_def)
next
  show "0 \<le> hue (rgbToHsb x)" "hue (rgbToHsb x) \<le> 360"
    using rgbToHsb_hue [of x] by simp_all
next
  assume x: "rgb8 x"
  then show "0 \<le> saturation (rgbToHsb x)" "saturation (rgbToHsb x) \<le> 100"
    using rgbToHsb_saturation [of x] by (simp_all add: rgb8_def)
  from x show "0 \<le> brightness (rgbToHsb x)" "brightness (rgbToHsb x) \<le> 100"
    using rgbToHsb_brightness_range [of x] by simp_all
qed

theorem conversion_ranges_witness:
  "rgb8 (hsbToRgb \<lparr>hue = 200, saturation = 80, brightness = 60\<rparr>)
   \<and> rgb8 \<lparr>rgb_r = 255, rgb_g = 0, rgb_b = 1\<rparr>
   \<and> hue (rgbToHsb \<lparr>rgb_r = 255, rgb_g = 0, rgb_b = 1\<rparr>) \<le> 360
   \<and> saturation (rgbToHsb \<lparr>rgb_r = 255, rgb_g = 0, rgb_b = 1\<rparr>) \<le> 100
   \<and> brightness (rgbToHsb \<lparr>rgb_r = 255, rgb_g = 0, rgb_b = 1\<rparr>) \<le> 100"
proof -
  have x: "rgb8 \<lparr>rgb_r = 255, rgb_g = 0, rgb_b = 1\<rparr>" by (simp add: rgb8_def)
  from conversion_ranges [of "\<lparr>hue = 200, saturation = 80, brightness = 60\<rparr>"
      "\<lparr>rgb_r = 255, rgb_g = 0, rgb_b = 1\<rparr>"] x
  show ?thesis by simp
qed



text \<open>
  The hue of \<open>(255, 0, 1)\<close> is \<open>360\<close>: before rounding it is \<open>360 - 60 / 255\<close>.
\<close>

theorem hue_360_counterexample:
  "hue (rgbToHsb \<lparr>rgb_r = 255, rgb_g = 0, rgb_b = 1\<rparr>) = 360"
  by code_simp


lemma thenWrite_Inr: "thenWrite (Inr buffer) k = k buffer"
  by (simp add: thenWrite_def)

lemma writeUInt8_ok:
  "0 \<le> v \<Longrightarrow> v \<le> 255 \<Longrightarrow> offset < length buffer
     \<Longrightarrow> writeUInt8 v offset buffer = Inr (buffer[offset := word_of_int v])"
  by (simp add: writeUInt8_def)

lemma writeUInt16BE_ok:
  "0 \<le> v \<Longrightarrow> v \<le> 65535 \<Longrightarrow> offset + 1 < length buffer
     \<Longrightarrow> writeUInt16BE v offset buffer
           = Inr (buffer[offset := word_of_int (v div 256), offset + 1 := word_of_int (v mod 256)])"
  by (simp add: writeUInt16BE_def)

lemma split_chunk:
  assumes "length mid = n + k"
  shows "\<exists>chunk rest. mid = chunk @ rest \<and> length chunk = n \<and> length rest = k"
  using assms by (intro exI [of _ "take n mid"] exI [of _ "drop n mid"]) simp

lemma seven_updates:
  assumes "length chunk = 7"
  shows "chunk[0 := x0, 1 := x1, 2 := x2, 3 := x3, 4 := x4, 5 := x5, 6 := x6]
           = [x0, x1, x2, x3, x4, x5, x6]"
proof -
  from assms obtain y0 y1 y2 y3 y4 y5 y6 where "chunk = [y0, y1, y2, y3, y4, y5, y6]"
    by (auto simp: length_Suc_conv eval_nat_numeral)
  then show ?thesis by (simp add: eval_nat_numeral)
qed

lemma eight_updates:
  assumes "length chunk = 8"
  shows "chunk[0 := x0, 1 := x1, 2 := x2, 3 := x3, 4 := x4, 5 := x5, 6 := x6, 7 := x7]
           = [x0, x1, x2, x3, x4, x5, x6, x7]"
proof -
  from assms obtain y0 y1 y2 y3 y4 y5 y6 y7 where "chunk = [y0, y1, y2, y3, y4, y5, y6, y7]"
    by (auto simp: length_Suc_conv eval_nat_numeral)
  then show ?thesis by (simp add: eval_nat_numeral)
qed

lemma update_in_chunk:
  "j < length chunk \<Longrightarrow> (pre @ chunk @ post)[length pre + j := x] = pre @ chunk[j := x] @ post"
  by (simp add: list_update_append)

lemma v1_entries_fill:
  assumes "list_all (\<lambda>e. 0 \<le> fst e \<and> fst e \<le> 255 \<and> rgb8 (snd e)) panels"
    and "length mid = 7 * length panels"
  shows "v1_entries panels (length pre) (pre @ mid @ post)
           = Inr (pre @ concat (map v1_entry panels) @ post)"
  using assms
proof (induction panels arbitrary: pre mid)
  case Nil
  then show ?case by simp
next
  case (Cons e panels)
  obtain panelId color where e: "e = (panelId, color)" by (cases e)
  from Cons.prems(1) have ok: "0 \<le> panelId" "panelId \<le> 255" "rgb8 color"
    and rest: "list_all (\<lambda>e. 0 \<le> fst e \<and> fst e \<le> 255 \<and> rgb8 (snd e)) panels"
    by (simp_all add: e)
  from Cons.prems(2) have "length mid = 7 + 7 * length panels" by simp
  then obtain chunk mid' where mid: "mid = chunk @ mid'" and chunk: "length chunk = 7"
    and mid': "length mid' = 7 * length panels"
    using split_chunk by blast
  have upd: "(pre @ chunk' @ mid' @ post)[length pre + j := x] = pre @ chunk'[j := x] @ mid' @ post"
    if "length chunk' = 7" "j < 7" for chunk' :: "byte list" and j x
    using that update_in_chunk [where j = j and chunk = chunk' and pre = pre and x = x and post = "mid' @ post"]
    by simp
  have w: "writeUInt8 v (length pre + j) (pre @ chunk' @ mid' @ post)
             = Inr (pre @ chunk'[j := word_of_int v] @ mid' @ post)"
    if "length chunk' = 7" "j < 7" "0 \<le> v" "v \<le> 255" for chunk' :: "byte list" and j v
    using that by (simp add: writeUInt8_ok upd)
  have w0: "writeUInt8 v (length pre) (pre @ chunk' @ mid' @ post)
             = Inr (pre @ chunk'[0 := word_of_int v] @ mid' @ post)"
    if "length chunk' = 7" "0 \<le> v" "v \<le> 255" for chunk' :: "byte list" and v
    using w [of chunk' 0 v] that by simp
  from ok(3) have c: "0 \<le> rgb_r color" "rgb_r color \<le> 255" "0 \<le> rgb_g color" "rgb_g color \<le> 255"
    "0 \<le> rgb_b color" "rgb_b color \<le> 255" by (simp_all add: rgb8_def)
  define c1 where "c1 = chunk[0 := word_of_int panelId]"
  define c2 where "c2 = c1[1 := word_of_int 1]"
  define c3 where "c3 = c2[2 := word_of_int (rgb_r color)]"
  define c4 where "c4 = c3[3 := word_of_int (rgb_g color)]"
  define c5 where "c5 = c4[4 := word_of_int (rgb_b color)]"
  define c6 where "c6 = c5[5 := word_of_int 0]"
  define c7 where "c7 = c6[6 := word_of_int 1]"
  have len: "length c1 = 7" "length c2 = 7" "length c3 = 7" "length c4 = 7" "length c5 = 7"
    "length c6 = 7"
    by (simp_all add: c1_def c2_def c3_def c4_def c5_def c6_def chunk)
  have a0: "writeUInt8 panelId (length pre) (pre @ chunk @ mid' @ post) = Inr (pre @ c1 @ mid' @ post)"
    unfolding c1_def using chunk ok(1,2) by (rule w0)
  have a1: "writeUInt8 1 (length pre + 1) (pre @ c1 @ mid' @ post) = Inr (pre @ c2 @ mid' @ post)"
    unfolding c2_def by (rule w [OF len(1)]) simp_all
  have a2: "writeUInt8 (rgb_r color) (length pre + 2) (pre @ c2 @ mid' @ post) = Inr (pre @ c3 @ mid' @ post)"
    unfolding c3_def using c by (intro w [OF len(2)]) simp_all
  have a3: "writeUInt8 (rgb_g color) (length pre + 3) (pre @ c3 @ mid' @ post) = Inr (pre @ c4 @ mid' @ post)"
    unfolding c4_def using c by (intro w [OF len(3)]) simp_all
  have a4: "writeUInt8 (rgb_b color) (length pre + 4) (pre @ c4 @ mid' @ post) = Inr (pre @ c5 @ mid' @ post)"
    unfolding c5_def using c by (intro w [OF len(4)]) simp_all
  have a5: "writeUInt8 0 (length pre + 5) (pre @ c5 @ mid' @ post) = Inr (pre @ c6 @ mid' @ post)"
    unfolding c6_def by (rule w [OF len(5)]) simp_all
  have a6: "writeUInt8 1 (length pre + 6) (pre @ c6 @ mid' @ post) = Inr (pre @ c7 @ mid' @ post)"
    unfolding c7_def by (rule w [OF len(6)]) simp_all
  have c7: "c7 = v1_entry e"
    unfolding c7_def c6_def c5_def c4_def c3_def c2_def c1_def
    using seven_updates [OF chunk] by (simp add: v1_entry_def e)
  have lenE: "length (v1_entry e) = 7" by (simp add: v1_entry_def)
  have step: "v1_entries (e # panels) (length pre) (pre @ mid @ post)
      = v1_entries panels (length pre + 7) (pre @ c7 @ mid' @ post)"
    by (simp only: e mid append_assoc v1_entries.simps a0 a1 a2 a3 a4 a5 a6 thenWrite_Inr)
  have "\<dots> = v1_entries panels (length (pre @ v1_entry e)) ((pre @ v1_entry e) @ mid' @ post)"
    by (simp only: c7 length_append lenE append_assoc)
  also have "\<dots> = Inr ((pre @ v1_entry e) @ concat (map v1_entry panels) @ post)"
    by (rule Cons.IH [OF rest mid'])
  finally show ?case using step by simp
qed

lemma buildV1Packet_frame:
  assumes "fitsV1 panels"
  shows "buildV1Packet panels = Inr (v1_frame panels)"
proof -
  from assms have n: "length panels \<le> 255"
    and all: "list_all (\<lambda>e. 0 \<le> fst e \<and> fst e \<le> 255 \<and> rgb8 (snd e)) panels"
    by (simp_all add: fitsV1_def)
  have alloc: "Buffer_alloc (1 + length panels * 7) = [0] @ replicate (7 * length panels) 0 @ []"
    by (simp add: Buffer_alloc_def mult.commute)
  have first: "writeUInt8 (int (length panels)) 0 (Buffer_alloc (1 + length panels * 7))
      = Inr ([word_of_int (int (length panels))] @ replicate (7 * length panels) 0 @ [])"
    using n by (simp add: writeUInt8_def Buffer_alloc_def mult.commute)
  have "v1_entries panels (length [word_of_int (int (length panels)) :: byte])
          ([word_of_int (int (length panels))] @ replicate (7 * length panels) 0 @ [])
        = Inr ([word_of_int (int (length panels))] @ concat (map v1_entry panels) @ [])"
    by (rule v1_entries_fill [OF all]) simp
  then have fill: "v1_entries panels 1
          ([word_of_int (int (length panels))] @ replicate (7 * length panels) 0 @ [])
        = Inr (v1_frame panels)"
    by (simp add: v1_frame_def)
  show ?thesis
    unfolding buildV1Packet_def Let_def first thenWrite_Inr by (rule fill)
qed

lemma length_v1_frame: "length (v1_frame panels) = 1 + 7 * length panels"
  by (induction panels) (simp_all add: v1_frame_def v1_entry_def)

lemma count_v1_frame:
  "length panels \<le> 255 \<Longrightarrow> readUInt8 (v1_frame panels) 0 = int (length panels)"
  by (simp add: readUInt8_def v1_frame_def unsigned_of_nat take_bit_nat_eq_self)

lemma v2_entries_fill:
  assumes "list_all (\<lambda>e. 0 \<le> fst e \<and> fst e \<le> 65535 \<and> rgb8 (snd e)) panels"
    and "length mid = 8 * length panels"
  shows "v2_entries panels (length pre) (pre @ mid @ post)
           = Inr (pre @ concat (map v2_entry panels) @ post)"
  using assms
proof (induction panels arbitrary: pre mid)
  case Nil
  then show ?case by simp
next
  case (Cons e panels)
  obtain panelId color where e: "e = (panelId, color)" by (cases e)
  from Cons.prems(1) have ok: "0 \<le> panelId" "panelId \<le> 65535" "rgb8 color"
    and rest: "list_all (\<lambda>e. 0 \<le> fst e \<and> fst e \<le> 65535 \<and> rgb8 (snd e)) panels"
    by (simp_all add: e)
  from Cons.prems(2) have "length mid = 8 + 8 * length panels" by simp
  then obtain chunk mid' where mid: "mid = chunk @ mid'" and chunk: "length chunk = 8"
    and mid': "length mid' = 8 * length panels"
    using split_chunk by blast
  have upd: "(pre @ chunk' @ mid' @ post)[length pre + j := x] = pre @ chunk'[j := x] @ mid' @ post"
    if "length chunk' = 8" "j < 8" for chunk' :: "byte list" and j x
    using that update_in_chunk [where j = j and chunk = chunk' and pre = pre and x = x and post = "mid' @ post"]
    by simp
  have w: "writeUInt8 v (length pre + j) (pre @ chunk' @ mid' @ post)
             = Inr (pre @ chunk'[j := word_of_int v] @ mid' @ post)"
    if "length chunk' = 8" "j < 8" "0 \<le> v" "v \<le> 255" for chunk' :: "byte list" and j v
    using that by (simp add: writeUInt8_ok upd)
  have w16: "writeUInt16BE v (length pre + j) (pre @ chunk' @ mid' @ post)
             = Inr (pre @ chunk'[j := word_of_int (v div 256), j + 1 := word_of_int (v mod 256)] @ mid' @ post)"
    if "length chunk' = 8" "j + 1 < 8" "0 \<le> v" "v \<le> 65535" for chunk' :: "byte list" and j v
  proof -
    have "writeUInt16BE v (length pre + j) (pre @ chunk' @ mid' @ post)
        = Inr ((pre @ chunk' @ mid' @ post)[length pre + j := word_of_int (v div 256),
                 length pre + (j + 1) := word_of_int (v mod 256)])"
      using that by (simp add: writeUInt16BE_def add.assoc)
    also have "(pre @ chunk' @ mid' @ post)[length pre + j := word_of_int (v div 256)]
        = pre @ chunk'[j := word_of_int (v div 256)] @ mid' @ post"
      using that by (intro upd) simp_all
    also have "(pre @ chunk'[j := word_of_int (v div 256)] @ mid' @ post)[length pre + (j + 1) := word_of_int (v mod 256)]
        = pre @ chunk'[j := word_of_int (v div 256), j + 1 := word_of_int (v mod 256)] @ mid' @ post"
      using that by (intro upd) simp_all
    finally show ?thesis .
  qed
  from ok(3) have c: "0 \<le> rgb_r color" "rgb_r color \<le> 255" "0 \<le> rgb_g color" "rgb_g color \<le> 255"
    "0 \<le> rgb_b color" "rgb_b color \<le> 255" by (simp_all add: rgb8_def)
  define c2 where "c2 = chunk[0 := word_of_int (panelId div 256), 0 + 1 := word_of_int (panelId mod 256)]"
  define c3 where "c3 = c2[2 := word_of_int (rgb_r color)]"
  define c4 where "c4 = c3[3 := word_of_int (rgb_g color)]"
  define c5 where "c5 = c4[4 := word_of_int (rgb_b color)]"
  define c6 where "c6 = c5[5 := word_of_int 0]"
  define c8 where "c8 = c6[6 := word_of_int (1 div 256), 6 + 1 := word_of_int (1 mod 256)]"
  have len: "length c2 = 8" "length c3 = 8" "length c4 = 8" "length c5 = 8" "length c6 = 8"
    by (simp_all add: c2_def c3_def c4_def c5_def c6_def chunk)
  have "writeUInt16BE panelId (length pre + 0) (pre @ chunk @ mid' @ post) = Inr (pre @ c2 @ mid' @ post)"
    unfolding c2_def using ok(1,2) by (intro w16 [OF chunk]) simp_all
  then have a0: "writeUInt16BE panelId (length pre) (pre @ chunk @ mid' @ post) = Inr (pre @ c2 @ mid' @ post)"
    by simp
  have a2: "writeUInt8 (rgb_r color) (length pre + 2) (pre @ c2 @ mid' @ post) = Inr (pre @ c3 @ mid' @ post)"
    unfolding c3_def using c by (intro w [OF len(1)]) simp_all
  have a3: "writeUInt8 (rgb_g color) (length pre + 3) (pre @ c3 @ mid' @ post) = Inr (pre @ c4 @ mid' @ post)"
    unfolding c4_def using c by (intro w [OF len(2)]) simp_all
  have a4: "writeUInt8 (rgb_b color) (length pre + 4) (pre @ c4 @ mid' @ post) = Inr (pre @ c5 @ mid' @ post)"
    unfolding c5_def using c by (intro w [OF len(3)]) simp_all
  have a5: "writeUInt8 0 (length pre + 5) (pre @ c5 @ mid' @ post) = Inr (pre @ c6 @ mid' @ post)"
    unfolding c6_def by (rule w [OF len(4)]) simp_all
  have a6: "writeUInt16BE 1 (length pre + 6) (pre @ c6 @ mid' @ post) = Inr (pre @ c8 @ mid' @ post)"
    unfolding c8_def by (rule w16 [OF len(5)]) simp_all
  have c8: "c8 = v2_entry e"
    unfolding c8_def c6_def c5_def c4_def c3_def c2_def
    using eight_updates [OF chunk] by (simp add: v2_entry_def e)
  have lenE: "length (v2_entry e) = 8" by (simp add: v2_entry_def)
  have step: "v2_entries (e # panels) (length pre) (pre @ mid @ post)
      = v2_entries panels (length pre + 8) (pre @ c8 @ mid' @ post)"
    by (simp only: e mid append_assoc v2_entries.simps a0 a2 a3 a4 a5 a6 thenWrite_Inr)
  have "\<dots> = v2_entries panels (length (pre @ v2_entry e)) ((pre @ v2_entry e) @ mid' @ post)"
    by (simp only: c8 length_append lenE append_assoc)
  also have "\<dots> = Inr ((pre @ v2_entry e) @ concat (map v2_entry panels) @ post)"
    by (rule Cons.IH [OF rest mid'])
  finally show ?case using step by simp
qed

lemma buildV2Packet_frame:
  assumes "fitsV2 panels"
  shows "buildV2Packet panels = Inr (v2_frame panels)"
proof -
  from assms have n: "length panels \<le> 65535"
    and all: "list_all (\<lambda>e. 0 \<le> fst e \<and> fst e \<le> 65535 \<and> rgb8 (snd e)) panels"
    by (simp_all add: fitsV2_def)
  define hi lo :: byte where "hi = word_of_int (int (length panels) div 256)"
    and "lo = word_of_int (int (length panels) mod 256)"
  have first: "writeUInt16BE (int (length panels)) 0 (Buffer_alloc (2 + length panels * 8))
      = Inr ([hi, lo] @ replicate (8 * length panels) 0 @ [])"
    using n by (simp add: writeUInt16BE_def Buffer_alloc_def mult.commute hi_def lo_def)
  have "v2_entries panels (length [hi, lo]) ([hi, lo] @ replicate (8 * length panels) 0 @ [])
        = Inr ([hi, lo] @ concat (map v2_entry panels) @ [])"
    by (rule v2_entries_fill [OF all]) simp
  then have fill: "v2_entries panels 2 ([hi, lo] @ replicate (8 * length panels) 0 @ [])
        = Inr (v2_frame panels)"
    by (simp add: v2_frame_def hi_def lo_def numeral_2_eq_2)
  show ?thesis
    unfolding buildV2Packet_def Let_def first thenWrite_Inr by (rule fill)
qed

lemma length_v2_frame: "length (v2_frame panels) = 2 + 8 * length panels"
  by (induction panels) (simp_all add: v2_frame_def v2_entry_def)

lemma count_v2_frame:
  assumes "length panels \<le> 65535"
  shows "readUInt16BE (v2_frame panels) 0 = int (length panels)"
proof -
  define n where "n = int (length panels)"
  have n: "0 \<le> n" "n \<le> 65535" using assms by (simp_all add: n_def)
  have hi: "uint (word_of_int (n div 256) :: byte) = n div 256"
    using n by (simp add: uint_word_of_int take_bit_int_eq_self_iff)
  have lo: "uint (word_of_int (n mod 256) :: byte) = n mod 256"
    by (simp add: uint_word_of_int take_bit_eq_mod)
  have "readUInt16BE (v2_frame panels) 0 = n div 256 * 256 + n mod 256"
    unfolding readUInt16BE_def v2_frame_def n_def [symmetric] by (simp add: hi lo)
  then show ?thesis by (simp add: n_def)
qed

lemma thenWrite_Inr_iff: "thenWrite res k = Inr b \<longleftrightarrow> (\<exists>b'. res = Inr b' \<and> k b' = Inr b)"
  by (cases res) (simp_all add: thenWrite_def)

lemma writeUInt8_Inr: "writeUInt8 v offset buffer = Inr b \<Longrightarrow> 0 \<le> v \<and> v \<le> 255"
  by (simp add: writeUInt8_def split: if_splits)

lemma writeUInt16BE_Inr: "writeUInt16BE v offset buffer = Inr b \<Longrightarrow> 0 \<le> v \<and> v \<le> 65535"
  by (simp add: writeUInt16BE_def split: if_splits)

lemma v1_entries_Inr:
  "v1_entries panels offset buffer = Inr b
     \<Longrightarrow> list_all (\<lambda>e. 0 \<le> fst e \<and> fst e \<le> 255 \<and> rgb8 (snd e)) panels"
proof (induction panels arbitrary: offset buffer)
  case Nil
  then show ?case by simp
next
  case (Cons e panels)
  obtain panelId color where e: "e = (panelId, color)" by (cases e)
  from Cons.prems obtain b1 b2 b3 b4 b5 b6 b7 where
    w: "writeUInt8 panelId offset buffer = Inr b1"
       "writeUInt8 (rgb_r color) (offset + 2) b2 = Inr b3"
       "writeUInt8 (rgb_g color) (offset + 3) b3 = Inr b4"
       "writeUInt8 (rgb_b color) (offset + 4) b4 = Inr b5"
    and r: "v1_entries panels (offset + 7) b7 = Inr b"
    unfolding e v1_entries.simps thenWrite_Inr_iff by blast
  from w have "0 \<le> panelId \<and> panelId \<le> 255 \<and> rgb8 color"
    by (auto simp: rgb8_def dest!: writeUInt8_Inr)
  with Cons.IH [OF r] show ?case by (simp add: e)
qed

lemma v2_entries_Inr:
  "v2_entries panels offset buffer = Inr b
     \<Longrightarrow> list_all (\<lambda>e. 0 \<le> fst e \<and> fst e \<le> 65535 \<and> rgb8 (snd e)) panels"
proof (induction panels arbitrary: offset buffer)
  case Nil
  then show ?case by simp
next
  case (Cons e panels)
  obtain panelId color where e: "e = (panelId, color)" by (cases e)
  from Cons.prems obtain b1 b3 b4 b5 b7 where
    w16: "writeUInt16BE panelId offset buffer = Inr b1"
    and w: "writeUInt8 (rgb_r color) (offset + 2) b1 = Inr b3"
       "writeUInt8 (rgb_g color) (offset + 3) b3 = Inr b4"
       "writeUInt8 (rgb_b color) (offset + 4) b4 = Inr b5"
    and r: "v2_entries panels (offset + 8) b7 = Inr b"
    unfolding e v2_entries.simps thenWrite_Inr_iff by blast
  from w w16 have "0 \<le> panelId \<and> panelId \<le> 65535 \<and> rgb8 color"
    by (auto simp: rgb8_def dest!: writeUInt8_Inr writeUInt16BE_Inr)
  with Cons.IH [OF r] show ?case by (simp add: e)
qed

lemma buildV1Packet_Inr: "buildV1Packet panels = Inr b \<Longrightarrow> fitsV1 panels"
  unfolding buildV1Packet_def Let_def thenWrite_Inr_iff fitsV1_def
  by (auto dest!: writeUInt8_Inr v1_entries_Inr)

lemma buildV2Packet_Inr: "buildV2Packet panels = Inr b \<Longrightarrow> fitsV2 panels"
  unfolding buildV2Packet_def Let_def thenWrite_Inr_iff fitsV2_def
  by (auto dest!: writeUInt16BE_Inr v2_entries_Inr)

lemma not_Inr_RangeError: "(\<forall>b. res \<noteq> Inr b) \<Longrightarrow> res = Inl ERR_OUT_OF_RANGE"
  by (cases res) (auto intro: RangeError.exhaust)

text \<open>
  Claim C2. When the entries fit the encoding (at most 255 entries, panel ids and channels
  within one byte for V1; at most 65535 entries and panel ids within two bytes for V2), the
  V1 encoder returns a frame of \<open>1 + 7N\<close> bytes: the count, then per entry the panel id,
  1, red, green, blue, 0, 1; the V2 encoder returns a frame of \<open>2 + 8N\<close> bytes: the count on
  two bytes, big-endian, then per entry the panel id on two bytes, red, green, blue, 0, and
  the transition time 1 on two bytes. Reading the count field gives \<open>N\<close> back. When the
  entries do not fit, the encoder throws a \<open>RangeError\<close> and returns no frame.
\<close>

theorem streaming_frames:
  "(fitsV1 panels \<longrightarrow> buildV1Packet panels = Inr (v1_frame panels))
   \<and> (\<not> fitsV1 panels \<longrightarrow> buildV1Packet panels = Inl ERR_OUT_OF_RANGE)
   \<and> length (v1_frame panels) = 1 + 7 * length panels
   \<and> (length panels \<le> 255 \<longrightarrow> readUInt8 (v1_frame panels) 0 = int (length panels))
   \<and> v1_frame panels = word_of_int (int (length panels)) # concat (map v1_entry panels)
   \<and> v1_entry (pid, color)
       = [word_of_int pid, 1, word_of_int (rgb_r color), word_of_int (rgb_g color),
          word_of_int (rgb_b color), 0, 1]
   \<and> (fitsV2 panels \<longrightarrow> buildV2Packet panels = Inr (v2_frame panels))
   \<and> (\<not> fitsV2 panels \<longrightarrow> buildV2Packet panels = Inl ERR_OUT_OF_RANGE)
   \<and> length (v2_frame panels) = 2 + 8 * length panels
   \<and> (length panels \<le> 65535 \<longrightarrow> readUInt16BE (v2_frame panels) 0 = int (length panels))
   \<and> v2_frame panels
       = word_of_int (int (length panels) div 256) # word_of_int (int (length panels) mod 256)
           # concat (map v2_entry panels)
   \<and> v2_entry (pid, color)
       = [word_of_int (pid div 256), word_of_int (pid mod 256), word_of_int (rgb_r color),
          word_of_int (rgb_g color), word_of_int (rgb_b color), 0, 0, 1]"
proof -
  have a: "\<not> fitsV1 panels \<longrightarrow> buildV1Packet panels = Inl ERR_OUT_OF_RANGE"
    using buildV1Packet_Inr [of panels] not_Inr_RangeError [of "buildV1Packet panels"] by blast
  have b: "\<not> fitsV2 panels \<longrightarrow> buildV2Packet panels = Inl ERR_OUT_OF_RANGE"
    using buildV2Packet_Inr [of panels] not_Inr_RangeError [of "buildV2Packet panels"] by blast
  show ?thesis
    using a b
    by (simp add: buildV1Packet_frame buildV2Packet_frame length_v1_frame length_v2_frame
        count_v1_frame count_v2_frame v1_entry_def v2_entry_def)
       (simp add: v1_frame_def v2_frame_def)
qed

theorem streaming_frames_witness:
  "fitsV2 twoPanels \<and> \<not> fitsV1 twoPanels
   \<and> buildV2Packet twoPanels = Inr [0, 2, 0, 7, 255, 0, 0, 0, 0, 1, 1, 44, 1, 2, 3, 0, 0, 1]
   \<and> buildV1Packet twoPanels = Inl ERR_OUT_OF_RANGE
   \<and> fitsV1 onePanel
   \<and> buildV1Packet onePanel = Inr [1, 7, 1, 255, 0, 0, 0, 1]
   \<and> readUInt8 [1, 7, 1, 255, 0, 0, 0, 1] 0 = 1"
proof -
  have f2: "fitsV2 twoPanels" and f1: "\<not> fitsV1 twoPanels" and g1: "fitsV1 onePanel"
    by (simp_all add: fitsV2_def fitsV1_def twoPanels_def onePanel_def rgb8_def red_def)
  have v2: "v2_frame twoPanels = [0, 2, 0, 7, 255, 0, 0, 0, 0, 1, 1, 44, 1, 2, 3, 0, 0, 1]"
    by (simp add: v2_frame_def v2_entry_def twoPanels_def red_def)
  have v1: "v1_frame onePanel = [1, 7, 1, 255, 0, 0, 0, 1]"
    by (simp add: v1_frame_def v1_entry_def onePanel_def red_def)
  have n: "length onePanel = 1" by (simp add: onePanel_def)
  from streaming_frames [of twoPanels] f2 f1
  have a: "buildV2Packet twoPanels = Inr (v2_frame twoPanels)"
    and b: "buildV1Packet twoPanels = Inl ERR_OUT_OF_RANGE"
    by blast+
  from streaming_frames [of onePanel] g1
  have c: "buildV1Packet onePanel = Inr (v1_frame onePanel)"
    and "length onePanel \<le> 255 \<longrightarrow> readUInt8 (v1_frame onePanel) 0 = int (length onePanel)"
    by blast+
  then have d: "readUInt8 [1, 7, 1, 255, 0, 0, 0, 1] 0 = 1"
    by (simp add: v1 n)
  from f2 f1 g1 a b c d show ?thesis by (simp add: v1 v2)
qed

text \<open>
  The V1 encoder returns no frame for one entry whose panel id is 256.
\<close>

theorem v1_panel_id_counterexample:
  "buildV1Packet [(256, \<lparr>rgb_r = 0, rgb_g = 0, rgb_b = 0\<rparr>)] = Inl ERR_OUT_OF_RANGE"
  by (simp add: buildV1Packet_def Buffer_alloc_def writeUInt8_def thenWrite_def)

lemma await_Inl: "await (Inl e, c) k = (Inl e, c)"
  by (simp add: await_def)

lemma await_Inr: "await (Inr v, c) k = k v c"
  by (simp add: await_def)

lemma sends_simps:
  "sent (sends c reqs) = sent c @ reqs"
  "cachedLightPanelIds (sends c reqs) = cachedLightPanelIds c"
  "sends (sends c xs) ys = sends c (xs @ ys)"
  "sends (c\<lparr>cachedLightPanelIds := v\<rparr>) xs = (sends c xs)\<lparr>cachedLightPanelIds := v\<rparr>"
  "sent (c\<lparr>cachedLightPanelIds := v\<rparr>) = sent c"
  by (simp_all add: sends_def)

lemma getInfo_fail:
  "net (length (sent c)) = None \<Longrightarrow> getInfo net c = (Inl Connectivity, sends c [GET_info])"
  by (simp add: getInfo_def client_get_def sends_def)

lemma getInfo_ok:
  "net (length (sent c)) = Some info \<Longrightarrow> getInfo net c = (Inr info, sends c [GET_info])"
  by (simp add: getInfo_def client_get_def sends_def)

lemma client_put_fail:
  "net (length (sent c)) = None \<Longrightarrow> client_put net req c = (Inl Connectivity, sends c [req])"
  by (simp add: client_put_def sends_def)

lemma client_put_ok:
  "net (length (sent c)) \<noteq> None \<Longrightarrow> client_put net req c = (Inr (), sends c [req])"
  by (auto simp: client_put_def sends_def)

lemma client_put_sent: "sent (snd (client_put net req c)) = sent c @ [req]"
  by (simp add: client_put_def split: option.splits)

lemma client_put_cache: "cachedLightPanelIds (snd (client_put net req c)) = cachedLightPanelIds c"
  by (simp add: client_put_def split: option.splits)

lemma client_put_result:
  "fst (client_put net req c) = (if net (length (sent c)) = None then Inl Connectivity else Inr ())"
  by (simp add: client_put_def split: option.splits)

lemma getPanelLayout_fail:
  "net (length (sent c)) = None \<Longrightarrow> getPanelLayout net c = (Inl Connectivity, sends c [GET_info])"
  by (simp add: getPanelLayout_def getInfo_fail await_Inl)

lemma getPanelLayout_ok:
  assumes "net (length (sent c)) = Some info"
  shows "\<exists>layout. getPanelLayout net c = (Inr layout, sends c [GET_info])
           \<and> positions layout = layout_positionData info"
  using assms by (simp add: getPanelLayout_def getInfo_ok [of net c info] await_Inr Let_def)

lemma getLightPanelIds_cached:
  "cachedLightPanelIds c = Some ids \<Longrightarrow> getLightPanelIds net c = (Inr ids, c)"
  by (simp add: getLightPanelIds_def)

lemma getLightPanelIds_fail:
  "cachedLightPanelIds c = None \<Longrightarrow> net (length (sent c)) = None
     \<Longrightarrow> getLightPanelIds net c = (Inl Connectivity, sends c [GET_info])"
  by (simp add: getLightPanelIds_def getPanelLayout_fail await_Inl)

lemma getLightPanelIds_ok:
  assumes "cachedLightPanelIds c = None" "net (length (sent c)) = Some info"
  shows "getLightPanelIds net c
           = (Inr (lightPanelIds info),
              (sends c [GET_info])\<lparr>cachedLightPanelIds := Some (lightPanelIds info)\<rparr>)"
proof -
  from getPanelLayout_ok [of net c info] assms(2) obtain layout
    where "getPanelLayout net c = (Inr layout, sends c [GET_info])"
      and "positions layout = layout_positionData info" by blast
  then show ?thesis
    using assms(1) by (simp add: getLightPanelIds_def await_Inr Let_def lightPanelIds_def)
qed

lemma update_same_color:
  "AList.update pid color (map (\<lambda>p. (p, color)) xs)
     = map (\<lambda>p. (p, color)) (if pid \<in> set xs then xs else xs @ [pid])"
  by (induction xs) auto

lemma once_set: "set (once ids) = set ids"
  by (induction ids) auto

lemma once_distinct: "distinct (once ids)"
  by (induction ids) (auto simp: once_set)

lemma once_id: "distinct ids \<Longrightarrow> once ids = ids"
proof (induction ids)
  case Nil
  then show ?case by simp
next
  case (Cons pid ids)
  then have "filter (\<lambda>other. other \<noteq> pid) ids = ids"
    by (auto simp: filter_id_conv)
  with Cons show ?case by simp
qed

lemma fold_update_once:
  "fold (\<lambda>id' panelColors. AList.update id' color panelColors) ids (map (\<lambda>p. (p, color)) xs)
     = map (\<lambda>p. (p, color)) (xs @ filter (\<lambda>other. other \<notin> set xs) (once ids))"
proof (induction ids arbitrary: xs)
  case Nil
  then show ?case by simp
next
  case (Cons pid ids)
  show ?case
  proof (cases "pid \<in> set xs")
    case True
    have "filter (\<lambda>other. other \<notin> set xs) (filter (\<lambda>other. other \<noteq> pid) (once ids))
        = filter (\<lambda>other. other \<notin> set xs) (once ids)"
      using True by (auto intro: filter_cong)
    with True Cons.IH [of xs] show ?thesis
      by (simp add: update_same_color)
  next
    case False
    have "filter (\<lambda>other. other \<notin> set (xs @ [pid])) (once ids)
        = filter (\<lambda>other. other \<notin> set xs) (filter (\<lambda>other. other \<noteq> pid) (once ids))"
      by (auto intro: filter_cong)
    with False Cons.IH [of "xs @ [pid]"] show ?thesis
      by (simp add: update_same_color)
  qed
qed

lemma panelColors_once:
  "fold (\<lambda>id' panelColors. AList.update id' color panelColors) ids []
     = map (\<lambda>p. (p, color)) (once ids)"
  using fold_update_once [of color ids "[]"] by simp

lemma animData_once:
  "animData (map (\<lambda>p. (p, color)) (once ids))
     = int (length (once ids))
         # concat (map (\<lambda>pid. [pid, 1, rgb_r color, rgb_g color, rgb_b color, 0, 1]) (once ids))"
  by (simp add: animData_def comp_def)

lemma setPanelColors_put:
  "setPanelColors net (fold (\<lambda>id' panelColors. AList.update id' color panelColors) ids []) c
     = client_put net (staticWrite ids color) c"
  by (simp only: setPanelColors_def staticWrite_def panelColors_once animData_once)

lemma setAllPanelsColor_cached:
  "cachedLightPanelIds c = Some ids
     \<Longrightarrow> setAllPanelsColor net color c = client_put net (staticWrite ids color) c"
  by (simp add: setAllPanelsColor_def getLightPanelIds_cached await_Inr setPanelColors_put)

lemma setAllPanelsColor_fail:
  "cachedLightPanelIds c = None \<Longrightarrow> net (length (sent c)) = None
     \<Longrightarrow> setAllPanelsColor net color c = (Inl Connectivity, sends c [GET_info])"
  by (simp add: setAllPanelsColor_def getLightPanelIds_fail await_Inl)

lemma setAllPanelsColor_ok:
  "cachedLightPanelIds c = None \<Longrightarrow> net (length (sent c)) = Some info
     \<Longrightarrow> setAllPanelsColor net color c
           = client_put net (staticWrite (lightPanelIds info) color)
               ((sends c [GET_info])\<lparr>cachedLightPanelIds := Some (lightPanelIds info)\<rparr>)"
  by (simp add: setAllPanelsColor_def getLightPanelIds_ok await_Inr setPanelColors_put)

lemma ensureStaticMode_fail:
  "net (length (sent c)) = None \<Longrightarrow> ensureStaticMode net c = (Inl Connectivity, sends c [GET_info])"
  by (simp add: ensureStaticMode_def getInfo_fail await_Inl)

lemma ensureStaticMode_static:
  "net (length (sent c)) = Some info \<Longrightarrow> isStatic info
     \<Longrightarrow> ensureStaticMode net c = (Inr (), sends c [GET_info])"
  by (simp add: ensureStaticMode_def getInfo_ok await_Inr Let_def isStatic_def)

lemma ensureStaticMode_animated:
  "net (length (sent c)) = Some info \<Longrightarrow> \<not> isStatic info
     \<Longrightarrow> ensureStaticMode net c = setAllPanelsColor net (currentRgb info) (sends c [GET_info])"
  by (simp add: ensureStaticMode_def getInfo_ok await_Inr Let_def isStatic_def currentRgb_def)

lemma clamp_max_min: "lo \<le> hi \<Longrightarrow> max lo (min hi v) = clamp lo hi v"
  by (auto simp: clamp_def max_def min_def)

lemma setBrightness_shape:
  "setBrightness net v c = reconcileThenPut net (emptyPayload\<lparr>put_brightness := Some (clamp 0 100 v)\<rparr>) c"
  by (simp add: setBrightness_def reconcileThenPut_def Let_def clamp_max_min)

lemma setHue_shape:
  "setHue net v c = reconcileThenPut net (emptyPayload\<lparr>put_hue := Some (clamp 0 360 v)\<rparr>) c"
  by (simp add: setHue_def reconcileThenPut_def Let_def clamp_max_min)

lemma setSaturation_shape:
  "setSaturation net v c = reconcileThenPut net (emptyPayload\<lparr>put_sat := Some (clamp 0 100 v)\<rparr>) c"
  by (simp add: setSaturation_def reconcileThenPut_def Let_def clamp_max_min)

lemma setColorTemperature_shape:
  "setColorTemperature net v c
     = reconcileThenPut net (emptyPayload\<lparr>put_ct := Some (clamp 1200 6500 v)\<rparr>) c"
  by (simp add: setColorTemperature_def reconcileThenPut_def Let_def clamp_max_min)

lemma setState_shape: "setState net state c = reconcileThenPut net (statePayload state) c"
proof -
  have "(let payload = emptyPayload;
           payload = (case arg_on state of None \<Rightarrow> payload
                      | Some v \<Rightarrow> payload\<lparr>put_on := Some v\<rparr>);
           payload = (case arg_brightness state of None \<Rightarrow> payload
                      | Some v \<Rightarrow> payload\<lparr>put_brightness := Some (max 0 (min 100 v))\<rparr>);
           payload = (case arg_hue state of None \<Rightarrow> payload
                      | Some v \<Rightarrow> payload\<lparr>put_hue := Some (max 0 (min 360 v))\<rparr>);
           payload = (case arg_saturation state of None \<Rightarrow> payload
                      | Some v \<Rightarrow> payload\<lparr>put_sat := Some (max 0 (min 100 v))\<rparr>);
           payload = (case arg_ct state of None \<Rightarrow> payload
                      | Some v \<Rightarrow> payload\<lparr>put_ct := Some (max 1200 (min 6500 v))\<rparr>)
       in payload) = statePayload state"
    by (simp add: Let_def emptyPayload_def statePayload_def clamp_max_min split: option.splits)
  then show ?thesis
    by (simp add: setState_def reconcileThenPut_def Let_def)
qed

lemma length_sends: "length (sent (sends c reqs)) = length (sent c) + length reqs"
  by (simp add: sends_simps)

lemma reconcile_fail:
  assumes "net (length (sent c)) = None"
  shows "reconcileThenPut net p c = (Inl Connectivity, sends c [GET_info])"
  using assms by (simp add: reconcileThenPut_def ensureStaticMode_fail await_Inl)

lemma reconcile_static:
  assumes "net (length (sent c)) = Some info" "isStatic info"
  shows "reconcileThenPut net p c = client_put net (PUT_state p) (sends c [GET_info])"
  using assms by (simp add: reconcileThenPut_def ensureStaticMode_static [of net c info] await_Inr)

lemma put_then_put:
  "await (client_put net req c) (\<lambda>_ c. client_put net req' c)
     = (if net (length (sent c)) = None then (Inl Connectivity, sends c [req])
        else client_put net req' (sends c [req]))"
  by (simp add: client_put_fail client_put_ok await_Inl await_Inr)

lemma reconcile_animated_cached:
  assumes "net (length (sent c)) = Some info" "\<not> isStatic info" "cachedLightPanelIds c = Some ids"
  shows "reconcileThenPut net p c
    = (if net (length (sent c) + 1) = None
       then (Inl Connectivity, sends c [GET_info, staticWrite ids (currentRgb info)])
       else client_put net (PUT_state p) (sends c [GET_info, staticWrite ids (currentRgb info)]))"
  using assms
  by (simp add: reconcileThenPut_def ensureStaticMode_animated [of net c info]
      setAllPanelsColor_cached sends_simps put_then_put)

lemma reconcile_animated_fetch_fail:
  assumes "net (length (sent c)) = Some info" "\<not> isStatic info" "cachedLightPanelIds c = None"
    and "net (length (sent c) + 1) = None"
  shows "reconcileThenPut net p c = (Inl Connectivity, sends c [GET_info, GET_info])"
  using assms
  by (simp add: reconcileThenPut_def ensureStaticMode_animated [of net c info]
      setAllPanelsColor_fail sends_simps await_Inl)

lemma reconcile_animated_fetch_ok:
  assumes "net (length (sent c)) = Some info" "\<not> isStatic info" "cachedLightPanelIds c = None"
    and "net (length (sent c) + 1) = Some info2"
  shows "reconcileThenPut net p c
    = (if net (length (sent c) + 2) = None
       then (Inl Connectivity,
             (sends c [GET_info, GET_info, staticWrite (lightPanelIds info2) (currentRgb info)])
               \<lparr>cachedLightPanelIds := Some (lightPanelIds info2)\<rparr>)
       else client_put net (PUT_state p)
              ((sends c [GET_info, GET_info, staticWrite (lightPanelIds info2) (currentRgb info)])
                 \<lparr>cachedLightPanelIds := Some (lightPanelIds info2)\<rparr>))"
proof -
  have "setAllPanelsColor net (currentRgb info) (sends c [GET_info])
      = client_put net (staticWrite (lightPanelIds info2) (currentRgb info))
          ((sends c [GET_info, GET_info])\<lparr>cachedLightPanelIds := Some (lightPanelIds info2)\<rparr>)"
    using assms(3,4) setAllPanelsColor_ok [of "sends c [GET_info]" net info2 "currentRgb info"]
    by (simp add: sends_simps)
  then show ?thesis
    using assms(1,2)
    by (simp add: reconcileThenPut_def ensureStaticMode_animated [of net c info]
        put_then_put sends_simps)
qed

lemma reconcileThenPut_reconciles: "reconciles net c p (reconcileThenPut net p c)"
proof -
  let ?res = "reconcileThenPut net p c"
  have first: "\<exists>more. sent (snd ?res) = sent c @ GET_info # more"
  proof (cases "net (length (sent c))")
    case None
    then show ?thesis by (simp add: reconcile_fail sends_simps)
  next
    case (Some info)
    note got = Some
    show ?thesis
    proof (cases "isStatic info")
      case True
      with got show ?thesis
        by (simp add: reconcile_static [of net c info] client_put_sent sends_simps)
    next
      case False
      note anim = False
      show ?thesis
      proof (cases "cachedLightPanelIds c")
        case (Some ids)
        with got anim show ?thesis
          by (simp add: reconcile_animated_cached [of net c info ids] client_put_sent sends_simps)
      next
        case None
        note nocache = None
        show ?thesis
        proof (cases "net (length (sent c) + 1)")
          case None
          with got anim nocache show ?thesis
            by (simp add: reconcile_animated_fetch_fail [of net c info] sends_simps)
        next
          case (Some info2)
          with got anim nocache show ?thesis
            by (simp add: reconcile_animated_fetch_ok [of net c info info2] client_put_sent sends_simps)
        qed
      qed
    qed
  qed
  show ?thesis
    unfolding reconciles_def
    apply (intro conjI allI impI)
    subgoal by (rule first)
    subgoal by (simp add: reconcile_fail sends_simps)
    subgoal by (simp add: reconcile_fail)
    subgoal for info by (simp add: reconcile_static [of net c info] client_put_sent sends_simps)
    subgoal for info ids
      by (simp add: reconcile_animated_cached [of net c info ids] client_put_sent sends_simps)
    subgoal for info
      by (simp add: reconcile_animated_fetch_fail [of net c info] sends_simps)
    subgoal for info
      by (simp add: reconcile_animated_fetch_fail [of net c info])
    subgoal for info info2
      by (simp add: reconcile_animated_fetch_ok [of net c info info2] client_put_sent sends_simps)
    done
qed

lemma state_writes_reconcile:
  "reconciles net c (emptyPayload\<lparr>put_brightness := Some (clamp 0 100 v)\<rparr>) (setBrightness net v c)"
  "reconciles net c (emptyPayload\<lparr>put_hue := Some (clamp 0 360 v)\<rparr>) (setHue net v c)"
  "reconciles net c (emptyPayload\<lparr>put_sat := Some (clamp 0 100 v)\<rparr>) (setSaturation net v c)"
  "reconciles net c (emptyPayload\<lparr>put_ct := Some (clamp 1200 6500 v)\<rparr>) (setColorTemperature net v c)"
  "reconciles net c (statePayload state) (setState net state c)"
  by (simp_all add: setBrightness_shape setHue_shape setSaturation_shape setColorTemperature_shape
      setState_shape reconcileThenPut_reconciles)

text \<open>
  Claim C1. \<open>setBrightness\<close>, \<open>setHue\<close>, \<open>setSaturation\<close>, \<open>setColorTemperature\<close> and
  \<open>setState\<close> first read the device state. When the selected effect is neither \<open>*Solid*\<close>
  nor \<open>*Static*\<close>, the per-panel static-effect write is sent before the write of the state
  field: its payload is the number of light panels and, for each of them, the panel id, 1,
  the red, green and blue channel that \<open>hsbToRgb\<close> gives for the hue, saturation and
  brightness just read, 0 and 1. When the effect is one of the two, only the write of the
  state field follows the read. An operation ends at the first request that fails.
\<close>

theorem static_mode_reconciliation:
  "reconciles net c (emptyPayload\<lparr>put_brightness := Some (clamp 0 100 v)\<rparr>) (setBrightness net v c)
   \<and> reconciles net c (emptyPayload\<lparr>put_hue := Some (clamp 0 360 v)\<rparr>) (setHue net v c)
   \<and> reconciles net c (emptyPayload\<lparr>put_sat := Some (clamp 0 100 v)\<rparr>) (setSaturation net v c)
   \<and> reconciles net c (emptyPayload\<lparr>put_ct := Some (clamp 1200 6500 v)\<rparr>)
        (setColorTemperature net v c)
   \<and> reconciles net c (statePayload state) (setState net state c)"
  by (intro conjI state_writes_reconcile)

lemma stateWrites_append: "stateWrites (xs @ ys) = stateWrites xs @ stateWrites ys"
  by (simp add: stateWrites_def)

lemma stateWrites_simps:
  "stateWrites [] = []"
  "stateWrites (GET_info # reqs) = stateWrites reqs"
  "stateWrites (staticWrite ids color # reqs) = stateWrites reqs"
  "stateWrites (PUT_state p # reqs) = p # stateWrites reqs"
  by (simp_all add: stateWrites_def staticWrite_def)

lemma reconciles_writes:
  assumes r: "reconciles net c p result"
  shows "writes net c p result"
proof (cases "net (length (sent c))")
  case None
  with r have "sent (snd result) = sent c @ [GET_info]" by (simp add: reconciles_def)
  with None show ?thesis by (auto simp: writes_def stateWrites_append stateWrites_simps)
next
  case (Some info)
  note got = Some
  show ?thesis
  proof (cases "isStatic info")
    case True
    with r got have "sent (snd result) = sent c @ [GET_info, PUT_state p]"
      by (simp add: reconciles_def)
    then show ?thesis by (simp add: writes_def stateWrites_append stateWrites_simps)
  next
    case False
    note anim = False
    show ?thesis
    proof (cases "cachedLightPanelIds c")
      case (Some ids)
      with r got anim have "sent (snd result)
          = sent c @ [GET_info, staticWrite ids (currentRgb info)]
              @ (if net (length (sent c) + 1) = None then [] else [PUT_state p])"
        by (simp add: reconciles_def)
      then show ?thesis by (auto simp: writes_def stateWrites_append stateWrites_simps)
    next
      case None
      note nocache = None
      show ?thesis
      proof (cases "net (length (sent c) + 1)")
        case None
        with r got anim nocache have "sent (snd result) = sent c @ [GET_info, GET_info]"
          by (simp add: reconciles_def)
        with None show ?thesis by (auto simp: writes_def stateWrites_append stateWrites_simps)
      next
        case (Some info2)
        with r got anim nocache have "sent (snd result)
            = sent c @ [GET_info, GET_info, staticWrite (lightPanelIds info2) (currentRgb info)]
                @ (if net (length (sent c) + 2) = None then [] else [PUT_state p])"
          by (simp add: reconciles_def)
        then show ?thesis by (auto simp: writes_def stateWrites_append stateWrites_simps)
      qed
    qed
  qed
qed

lemma clamp_range: "lo \<le> hi \<Longrightarrow> lo \<le> clamp lo hi v \<and> clamp lo hi v \<le> hi"
  by (simp add: clamp_def)

lemma clamp_id: "lo \<le> v \<Longrightarrow> v \<le> hi \<Longrightarrow> clamp lo hi v = v"
  by (simp add: clamp_def)

text \<open>
  Claim C6. The body that \<open>setBrightness\<close> and \<open>setSaturation\<close> write holds the input
  clamped to \<open>[0, 100]\<close>, that of \<open>setHue\<close> the input clamped to \<open>[0, 360]\<close>, that of
  \<open>setColorTemperature\<close> the input clamped to \<open>[1200, 6500]\<close>, and \<open>setState\<close> clamps each
  field it is given in the same way; no other body is written. So \<open>setHue 400\<close> writes 360,
  \<open>setColorTemperature 100\<close> writes 1200 and \<open>setBrightness (- 5)\<close> writes 0.
\<close>

theorem input_clamping:
  "writes net c (emptyPayload\<lparr>put_brightness := Some (clamp 0 100 v)\<rparr>) (setBrightness net v c)
   \<and> writes net c (emptyPayload\<lparr>put_sat := Some (clamp 0 100 v)\<rparr>) (setSaturation net v c)
   \<and> writes net c (emptyPayload\<lparr>put_hue := Some (clamp 0 360 v)\<rparr>) (setHue net v c)
   \<and> writes net c (emptyPayload\<lparr>put_ct := Some (clamp 1200 6500 v)\<rparr>) (setColorTemperature net v c)
   \<and> writes net c (statePayload state) (setState net state c)
   \<and> put_on (statePayload state) = arg_on state
   \<and> put_brightness (statePayload state) = map_option (clamp 0 100) (arg_brightness state)
   \<and> put_sat (statePayload state) = map_option (clamp 0 100) (arg_saturation state)
   \<and> put_hue (statePayload state) = map_option (clamp 0 360) (arg_hue state)
   \<and> put_ct (statePayload state) = map_option (clamp 1200 6500) (arg_ct state)
   \<and> (lo \<le> hi \<longrightarrow> clamp lo hi v = max lo (min hi v))
   \<and> (lo \<le> hi \<longrightarrow> lo \<le> clamp lo hi v \<and> clamp lo hi v \<le> hi)
   \<and> (lo \<le> v \<and> v \<le> hi \<longrightarrow> clamp lo hi v = v)
   \<and> clamp 0 360 400 = 360 \<and> clamp 1200 6500 100 = 1200 \<and> clamp 0 100 (- 5) = 0"
  by (intro conjI impI reconciles_writes state_writes_reconcile)
     (simp_all add: statePayload_def clamp_def max_def min_def)

lemma set_lightPanelIds:
  "set (lightPanelIds info) = panelId ` {p \<in> set (layout_positionData info). shapeType p \<noteq> 12}"
  by (auto simp: lightPanelIds_def)

lemma reconcile_cache:
  assumes "cachedLightPanelIds c = Some ids"
  shows "cachedLightPanelIds (snd (reconcileThenPut net p c)) = Some ids"
proof (cases "net (length (sent c))")
  case None
  then show ?thesis using assms by (simp add: reconcile_fail sends_simps)
next
  case (Some info)
  then show ?thesis
    using assms
    by (cases "isStatic info")
       (simp_all add: reconcile_static [of net c info] reconcile_animated_cached [of net c info ids]
          client_put_cache sends_simps)
qed

lemma setColor_cached:
  assumes "cachedLightPanelIds c = Some ids"
  shows "sent (snd (setColor net color c)) = sent c @ [staticWrite ids color]"
    and "cachedLightPanelIds (snd (setColor net color c)) = Some ids"
  using assms
  by (simp_all add: setColor_def setAllPanelsColor_cached client_put_sent client_put_cache)

lemma setColor_first:
  assumes "cachedLightPanelIds c = None" "net (length (sent c)) = Some info"
  shows "sent (snd (setColor net color c)) = sent c @ [GET_info, staticWrite (lightPanelIds info) color]"
    and "cachedLightPanelIds (snd (setColor net color c)) = Some (lightPanelIds info)"
  using assms
  by (simp_all add: setColor_def setAllPanelsColor_ok [of c net info] client_put_sent
      client_put_cache sends_simps)

lemma setColor_unreachable:
  assumes "cachedLightPanelIds c = None" "net (length (sent c)) = None"
  shows "sent (snd (setColor net color c)) = sent c @ [GET_info]"
    and "cachedLightPanelIds (snd (setColor net color c)) = None"
    and "fst (setColor net color c) = Inl Connectivity"
  using assms
  by (simp_all add: setColor_def setAllPanelsColor_fail sends_simps)

text \<open>
  Claim C8. The static-effect write of \<open>setColor\<close> (which is \<open>setAllPanelsColor\<close>) carries
  the number of addressed panels and, for each of them, the panel id, 1, the three
  channels of the given color, 0 and 1. The addressed panels are the light panel ids, each
  once: the ids of the positions whose shape type is not 12. With an empty cache the ids
  are those of the layout just read, and they are cached; with a filled cache nothing is
  read, the cached ids are addressed, and the cache stays as it is through every operation
  of the connection.
\<close>

theorem controller_panel_exclusion:
  "(cachedLightPanelIds c = None \<longrightarrow>
      (\<forall>info. net (length (sent c)) = Some info \<longrightarrow>
          sent (snd (setColor net color c))
            = sent c @ [GET_info,
                PUT_effects_static
                  (int (length (once (lightPanelIds info)))
                     # concat (map (\<lambda>pid. [pid, 1, rgb_r color, rgb_g color, rgb_b color, 0, 1])
                                 (once (lightPanelIds info))))]
        \<and> cachedLightPanelIds (snd (setColor net color c)) = Some (lightPanelIds info))
    \<and> (net (length (sent c)) = None \<longrightarrow>
          sent (snd (setColor net color c)) = sent c @ [GET_info]
        \<and> cachedLightPanelIds (snd (setColor net color c)) = None))
   \<and> (\<forall>ids. cachedLightPanelIds c = Some ids \<longrightarrow>
          sent (snd (setColor net color c))
            = sent c @ [PUT_effects_static
                  (int (length (once ids))
                     # concat (map (\<lambda>pid. [pid, 1, rgb_r color, rgb_g color, rgb_b color, 0, 1])
                                 (once ids)))]
        \<and> cachedLightPanelIds (snd (setColor net color c)) = Some ids
        \<and> cachedLightPanelIds (snd (setBrightness net v c)) = Some ids
        \<and> cachedLightPanelIds (snd (setHue net v c)) = Some ids
        \<and> cachedLightPanelIds (snd (setSaturation net v c)) = Some ids
        \<and> cachedLightPanelIds (snd (setColorTemperature net v c)) = Some ids
        \<and> cachedLightPanelIds (snd (setState net state c)) = Some ids)
   \<and> setAllPanelsColor net color c = setColor net color c
   \<and> lightPanelIds info'
       = map panelId (filter (\<lambda>p. shapeType p \<noteq> 12) (layout_positionData info'))
   \<and> set (lightPanelIds info')
       = panelId ` {p \<in> set (layout_positionData info'). shapeType p \<noteq> 12}
   \<and> set (once ids') = set ids'
   \<and> distinct (once ids')
   \<and> (distinct ids' \<longrightarrow> once ids' = ids')"
proof (intro conjI allI impI set_lightPanelIds once_set once_distinct once_id)
  show "setAllPanelsColor net color c = setColor net color c" by (simp add: setColor_def)
  show "lightPanelIds info'
      = map panelId (filter (\<lambda>p. shapeType p \<noteq> 12) (layout_positionData info'))"
    by (simp add: lightPanelIds_def)
qed (simp_all add: setColor_first [of c net] setColor_unreachable setColor_cached
        setBrightness_shape setHue_shape setSaturation_shape setColorTemperature_shape
        setState_shape reconcile_cache staticWrite_def)

lemma example_facts:
  "\<not> isStatic exampleInfo" "isStatic staticInfo"
  "lightPanelIds exampleInfo = [101, 102]"
  "once [101, 102] = [101, 102]"
  by (simp_all add: isStatic_def exampleInfo_def staticInfo_def lightPanelIds_def str_def)

lemma currentRgb_example: "currentRgb exampleInfo = \<lparr>rgb_r = 31, rgb_g = 112, rgb_b = 153\<rparr>"
  by code_simp

theorem controller_panel_exclusion_witness:
  "cachedLightPanelIds newClient = None
   \<and> sent (snd (setColor (\<lambda>k. Some exampleInfo) red newClient))
        = [GET_info, PUT_effects_static [2, 101, 1, 255, 0, 0, 0, 1, 102, 1, 255, 0, 0, 0, 1]]
   \<and> cachedLightPanelIds (snd (setColor (\<lambda>k. Some exampleInfo) red newClient)) = Some [101, 102]
   \<and> sent (snd (setColor (\<lambda>k. None) red (snd (setColor (\<lambda>k. Some exampleInfo) red newClient))))
        = [GET_info, PUT_effects_static [2, 101, 1, 255, 0, 0, 0, 1, 102, 1, 255, 0, 0, 0, 1],
           PUT_effects_static [2, 101, 1, 255, 0, 0, 0, 1, 102, 1, 255, 0, 0, 0, 1]]"
proof -
  define c1 where "c1 = snd (setColor (\<lambda>k. Some exampleInfo) red newClient)"
  have n: "cachedLightPanelIds newClient = None" "sent newClient = []"
    by (simp_all add: newClient_def)
  from controller_panel_exclusion [of newClient "\<lambda>k. Some exampleInfo" red] n
  have a: "sent c1
      = [GET_info, PUT_effects_static [2, 101, 1, 255, 0, 0, 0, 1, 102, 1, 255, 0, 0, 0, 1]]"
    and b: "cachedLightPanelIds c1 = Some [101, 102]"
    unfolding c1_def by (simp_all add: example_facts red_def)
  from controller_panel_exclusion [of c1 "\<lambda>k. None" red] b
  have c: "sent (snd (setColor (\<lambda>k. None) red c1))
      = sent c1 @ [PUT_effects_static [2, 101, 1, 255, 0, 0, 0, 1, 102, 1, 255, 0, 0, 0, 1]]"
    by (simp add: example_facts red_def)
  from n a b c show ?thesis
    unfolding c1_def [symmetric] by simp
qed

theorem static_mode_reconciliation_witness:
  "sent (snd (setBrightness (\<lambda>k. Some exampleInfo) 40 newClient))
     = [GET_info, GET_info,
        PUT_effects_static [2, 101, 1, 31, 112, 153, 0, 1, 102, 1, 31, 112, 153, 0, 1],
        PUT_state (emptyPayload\<lparr>put_brightness := Some 40\<rparr>)]
   \<and> sent (snd (setBrightness (\<lambda>k. Some staticInfo) 40 newClient))
     = [GET_info, PUT_state (emptyPayload\<lparr>put_brightness := Some 40\<rparr>)]
   \<and> sent (snd (setBrightness (\<lambda>k. None) 40 newClient)) = [GET_info]"
proof -
  have n: "cachedLightPanelIds newClient = None" "sent newClient = []"
    by (simp_all add: newClient_def)
  have cl: "clamp 0 100 40 = 40" by (simp add: clamp_def)
  have sw: "staticWrite [101, 102] (currentRgb exampleInfo)
      = PUT_effects_static [2, 101, 1, 31, 112, 153, 0, 1, 102, 1, 31, 112, 153, 0, 1]"
    by (simp add: staticWrite_def example_facts currentRgb_example)
  from static_mode_reconciliation [of "\<lambda>k. Some exampleInfo" newClient 40]
  have "reconciles (\<lambda>k. Some exampleInfo) newClient (emptyPayload\<lparr>put_brightness := Some (clamp 0 100 40)\<rparr>)
          (setBrightness (\<lambda>k. Some exampleInfo) 40 newClient)"
    by blast
  then have a: "sent (snd (setBrightness (\<lambda>k. Some exampleInfo) 40 newClient))
     = [GET_info, GET_info,
        PUT_effects_static [2, 101, 1, 31, 112, 153, 0, 1, 102, 1, 31, 112, 153, 0, 1],
        PUT_state (emptyPayload\<lparr>put_brightness := Some 40\<rparr>)]"
    by (simp add: reconciles_def n example_facts cl sw)
  from static_mode_reconciliation [of "\<lambda>k. Some staticInfo" newClient 40]
  have "reconciles (\<lambda>k. Some staticInfo) newClient (emptyPayload\<lparr>put_brightness := Some (clamp 0 100 40)\<rparr>)
          (setBrightness (\<lambda>k. Some staticInfo) 40 newClient)"
    by blast
  then have b: "sent (snd (setBrightness (\<lambda>k. Some staticInfo) 40 newClient))
     = [GET_info, PUT_state (emptyPayload\<lparr>put_brightness := Some 40\<rparr>)]"
    by (simp add: reconciles_def n example_facts cl)
  from static_mode_reconciliation [of "\<lambda>k. None" newClient 40]
  have "reconciles (\<lambda>k. None) newClient (emptyPayload\<lparr>put_brightness := Some (clamp 0 100 40)\<rparr>)
          (setBrightness (\<lambda>k. None) 40 newClient)"
    by blast
  then have c: "sent (snd (setBrightness (\<lambda>k. None) 40 newClient)) = [GET_info]"
    by (simp add: reconciles_def n)
  from a b c show ?thesis by simp
qed

theorem input_clamping_witness:
  "stateWrites (sent (snd (setHue (\<lambda>k. Some staticInfo) 400 newClient)))
     = [emptyPayload\<lparr>put_hue := Some 360\<rparr>]
   \<and> stateWrites (sent (snd (setColorTemperature (\<lambda>k. Some staticInfo) 100 newClient)))
     = [emptyPayload\<lparr>put_ct := Some 1200\<rparr>]
   \<and> stateWrites (sent (snd (setBrightness (\<lambda>k. Some staticInfo) (- 5) newClient)))
     = [emptyPayload\<lparr>put_brightness := Some 0\<rparr>]"
proof -
  have n: "stateWrites (sent newClient) = []"
    by (simp add: newClient_def stateWrites_def)
  have up: "\<forall>k. (\<lambda>k. Some staticInfo) k \<noteq> None" by simp
  have cl: "clamp 0 360 400 = 360" "clamp 1200 6500 100 = 1200" "clamp 0 100 (- 5) = 0"
    by (simp_all add: clamp_def)
  from input_clamping [of "\<lambda>k. Some staticInfo" newClient 400]
  have "writes (\<lambda>k. Some staticInfo) newClient (emptyPayload\<lparr>put_hue := Some (clamp 0 360 400)\<rparr>)
          (setHue (\<lambda>k. Some staticInfo) 400 newClient)"
    by blast
  then have a: "stateWrites (sent (snd (setHue (\<lambda>k. Some staticInfo) 400 newClient)))
     = [emptyPayload\<lparr>put_hue := Some 360\<rparr>]"
    by (simp add: writes_def n cl)
  from input_clamping [of "\<lambda>k. Some staticInfo" newClient 100]
  have "writes (\<lambda>k. Some staticInfo) newClient (emptyPayload\<lparr>put_ct := Some (clamp 1200 6500 100)\<rparr>)
          (setColorTemperature (\<lambda>k. Some staticInfo) 100 newClient)"
    by blast
  then have b: "stateWrites (sent (snd (setColorTemperature (\<lambda>k. Some staticInfo) 100 newClient)))
     = [emptyPayload\<lparr>put_ct := Some 1200\<rparr>]"
    by (simp add: writes_def n cl)
  from input_clamping [of "\<lambda>k. Some staticInfo" newClient "- 5"]
  have "writes (\<lambda>k. Some staticInfo) newClient (emptyPayload\<lparr>put_brightness := Some (clamp 0 100 (- 5))\<rparr>)
          (setBrightness (\<lambda>k. Some staticInfo) (- 5) newClient)"
    by blast
  then have c: "stateWrites (sent (snd (setBrightness (\<lambda>k. Some staticInfo) (- 5) newClient)))
     = [emptyPayload\<lparr>put_brightness := Some 0\<rparr>]"
    by (simp add: writes_def n cl)
  from a b c show ?thesis by simp
qed

lemma or_else_nonempty: "addr \<noteq> [] \<Longrightarrow> or_else alias' addr \<noteq> []"
  by (simp add: or_else_def split: option.splits)

lemma wellFormed_entries: "wellFormed lc m = entriesOk lc (clients m) (devices m)"
  by (simp add: wellFormed_def)

lemma entriesOk_key:
  "entriesOk lc n xs \<Longrightarrow> (k, d) \<in> set xs \<Longrightarrow> k = lc (alias d) \<and> client d < n"
  by (auto simp: entriesOk_def list_all_iff)

lemma entriesOk_lookup:
  "entriesOk lc n xs \<Longrightarrow> (k, d) \<in> set xs \<Longrightarrow> map_of xs k = Some d"
  by (simp add: entriesOk_def)

lemma entriesOk_client:
  assumes "entriesOk lc n xs" "(k, d) \<in> set xs" "(k', d') \<in> set xs" "client d = client d'"
  shows "k = k' \<and> d = d'"
proof -
  from assms(1) have "inj_on (\<lambda>(key, device). client device) (set xs)"
    by (simp add: entriesOk_def distinct_map)
  from inj_onD [OF this, of "(k, d)" "(k', d')"] assms(2-4) show ?thesis by simp
qed

lemma entriesOk_lookup_alias:
  assumes "entriesOk lc n xs" "d \<in> snd ` set xs"
  shows "map_of xs (lc (alias d)) = Some d"
proof -
  from assms(2) obtain k where "(k, d) \<in> set xs" by auto
  with assms(1) show ?thesis
    using entriesOk_key [of lc n xs k d] entriesOk_lookup [of lc n xs k d] by simp
qed

lemma find_first:
  assumes "map snd xs = before @ d # after" "\<forall>x\<in>set before. \<not> P x" "P d"
  shows "\<exists>k. find (\<lambda>(key, device). P device) xs = Some (k, d)"
  using assms
proof (induction before arbitrary: xs)
  case Nil
  then obtain k ys where "xs = (k, d) # ys" by (cases xs) auto
  with Nil show ?case by simp
next
  case (Cons b before)
  then obtain k ys where xs: "xs = (k, b) # ys" and ys: "map snd ys = before @ d # after"
    by (cases xs) auto
  from Cons.prems have "\<not> P b" "\<forall>x\<in>set before. \<not> P x" by simp_all
  with Cons.IH [OF ys _ Cons.prems(3)] show ?case by (simp add: xs)
qed

lemma find_none:
  "\<forall>d\<in>snd ` set xs. \<not> P d \<Longrightarrow> find (\<lambda>(key, device). P device) xs = None"
  by (induction xs) auto



text \<open>
  Claim C3. In a registry the code can reach, \<open>resolve\<close> answers \<open>NotConfigured\<close> when no
  device is registered, whatever the identifier. Without an identifier (\<open>undefined\<close> or the
  empty string, which the code tests alike) it returns the device when there is exactly
  one, and \<open>AmbiguousSelection\<close> with every alias when there are several. With an
  identifier it returns the device whose alias equals the identifier up to case, that is,
  whose alias has the lower-case form of the identifier; when no alias does, the first
  device in insertion order whose address is the identifier itself; and \<open>NotFound\<close> with
  every alias when no address is. This holds whatever the library's \<open>toLowerCase\<close> does.
\<close>

theorem resolve_cases:
  assumes wf: "wellFormed toLowerCase m"
  shows "(devices m = [] \<longrightarrow> resolve toLowerCase p m = Inl NotConfigured)
    \<and> (falsy p \<longrightarrow>
         (\<forall>key device. devices m = [(key, device)] \<longrightarrow> resolve toLowerCase p m = Inr device))
    \<and> (falsy p \<longrightarrow> 1 < length (devices m)
          \<longrightarrow> resolve toLowerCase p m
                = Inl (AmbiguousSelection (map (\<lambda>(key, d). alias d) (devices m))))
    \<and> (\<forall>s. p = Some s \<longrightarrow> s \<noteq> [] \<longrightarrow> devices m \<noteq> [] \<longrightarrow>
          (\<forall>d\<in>snd ` set (devices m).
              toLowerCase (alias d) = toLowerCase s \<longrightarrow> resolve toLowerCase p m = Inr d)
        \<and> ((\<forall>d\<in>snd ` set (devices m). toLowerCase (alias d) \<noteq> toLowerCase s) \<longrightarrow>
              (\<forall>before d after. map snd (devices m) = before @ d # after
                  \<longrightarrow> (\<forall>x\<in>set before. ip x \<noteq> s) \<longrightarrow> ip d = s
                  \<longrightarrow> resolve toLowerCase p m = Inr d)
            \<and> ((\<forall>d\<in>snd ` set (devices m). ip d \<noteq> s)
                  \<longrightarrow> resolve toLowerCase p m
                        = Inl (NotFound s (map (\<lambda>(key, d). alias d) (devices m))))))"
proof (intro conjI allI impI ballI)
  assume "devices m = []"
  then show "resolve toLowerCase p m = Inl NotConfigured" by (simp add: resolve_def)
next
  fix key device
  assume "falsy p" "devices m = [(key, device)]"
  then show "resolve toLowerCase p m = Inr device" by (simp add: resolve_def)
next
  assume "falsy p" "1 < length (devices m)"
  then show "resolve toLowerCase p m
      = Inl (AmbiguousSelection (map (\<lambda>(key, d). alias d) (devices m)))"
    by (cases "devices m" rule: list.exhaust; cases "tl (devices m)")
       (auto simp: resolve_def split: list.splits)
next
  fix s d
  assume p: "p = Some s" "s \<noteq> []" and ne: "devices m \<noteq> []"
    and d: "d \<in> snd ` set (devices m)" "toLowerCase (alias d) = toLowerCase s"
  have "map_of (devices m) (toLowerCase s) = Some d"
    using entriesOk_lookup_alias [OF wf [unfolded wellFormed_entries] d(1)] d(2) by simp
  then show "resolve toLowerCase p m = Inr d"
    using p ne by (simp add: resolve_def falsy_def or_else_def)
next
  fix s before d after
  assume p: "p = Some s" "s \<noteq> []" and ne: "devices m \<noteq> []"
    and no: "\<forall>d\<in>snd ` set (devices m). toLowerCase (alias d) \<noteq> toLowerCase s"
    and split: "map snd (devices m) = before @ d # after" "\<forall>x\<in>set before. ip x \<noteq> s" "ip d = s"
  have none: "map_of (devices m) (toLowerCase s) = None"
  proof (cases "map_of (devices m) (toLowerCase s)")
    case (Some d')
    then have "(toLowerCase s, d') \<in> set (devices m)" by (rule map_of_SomeD)
    with entriesOk_key [OF wf [unfolded wellFormed_entries] this] no show ?thesis by force
  qed simp
  from find_first [of "devices m" before d after "\<lambda>x. ip x = s"] split
  obtain k where "find (\<lambda>(key, device). ip device = s) (devices m) = Some (k, d)" by auto
  then show "resolve toLowerCase p m = Inr d"
    using p ne none by (simp add: resolve_def falsy_def or_else_def)
next
  fix s
  assume p: "p = Some s" "s \<noteq> []" and ne: "devices m \<noteq> []"
    and no: "\<forall>d\<in>snd ` set (devices m). toLowerCase (alias d) \<noteq> toLowerCase s"
    and noip: "\<forall>d\<in>snd ` set (devices m). ip d \<noteq> s"
  have none: "map_of (devices m) (toLowerCase s) = None"
  proof (cases "map_of (devices m) (toLowerCase s)")
    case (Some d')
    then have "(toLowerCase s, d') \<in> set (devices m)" by (rule map_of_SomeD)
    with entriesOk_key [OF wf [unfolded wellFormed_entries] this] no show ?thesis by force
  qed simp
  have "find (\<lambda>(key, device). ip device = s) (devices m) = None"
    using noip by (intro find_none) simp
  then show "resolve toLowerCase p m
      = Inl (NotFound s (map (\<lambda>(key, d). alias d) (devices m)))"
    using p ne none by (simp add: resolve_def falsy_def or_else_def)
qed

lemma str_examples:
  "str ''Kitchen'' = [75, 105, 116, 99, 104, 101, 110]"
  "str ''KITCHEN'' = [75, 73, 84, 67, 72, 69, 78]"
  "str ''kitchen'' = [107, 105, 116, 99, 104, 101, 110]"
  "str ''10.0.0.1'' = [49, 48, 46, 48, 46, 48, 46, 49]"
  "str ''10.0.0.2'' = [49, 48, 46, 48, 46, 48, 46, 50]"
  "str ''Shapes'' = [83, 104, 97, 112, 101, 115]"
  "str ''shapes'' = [115, 104, 97, 112, 101, 115]"
  by (simp_all add: str_def)

lemma lower_examples:
  "exampleLowerCase (str ''Kitchen'') = str ''kitchen''"
  "exampleLowerCase (str ''KITCHEN'') = str ''kitchen''"
  "exampleLowerCase (str ''10.0.0.2'') = str ''10.0.0.2''"
  "exampleLowerCase (str ''10.0.0.1'') = str ''10.0.0.1''"
  "exampleLowerCase (str ''Shapes'') = str ''shapes''"
  "exampleLowerCase (str ''shapes'') = str ''shapes''"
  "exampleLowerCase [] = []"
  by (simp_all add: str_examples exampleLowerCase_def)

lemma distinct_examples:
  "str ''kitchen'' \<noteq> str ''10.0.0.2''" "str ''10.0.0.2'' \<noteq> str ''kitchen''"
  "str ''Kitchen'' \<noteq> str ''10.0.0.1''" "str ''10.0.0.2'' \<noteq> str ''10.0.0.1''"
  "str ''shapes'' \<noteq> str ''kitchen''" "str ''shapes'' \<noteq> str ''10.0.0.2''"
  "str ''kitchen'' \<noteq> str ''shapes''" "str ''10.0.0.2'' \<noteq> str ''shapes''"
  "str ''Shapes'' \<noteq> str ''10.0.0.2''" "str ''Shapes'' \<noteq> []" "str ''kitchen'' \<noteq> []"
  "str ''10.0.0.2'' \<noteq> []" "str ''KITCHEN'' \<noteq> []" "[] \<noteq> str ''kitchen''"
  "str ''Kitchen'' \<noteq> []" "str ''10.0.0.1'' \<noteq> []"
  by (simp_all add: str_examples)

lemma wellFormed_twoDevices: "wellFormed exampleLowerCase twoDevices"
  by (simp add: wellFormed_def entriesOk_def twoDevices_def deviceA_def deviceB_def
      lower_examples distinct_examples)

theorem resolve_cases_witness:
  "wellFormed exampleLowerCase twoDevices
   \<and> resolve exampleLowerCase (Some (str ''KITCHEN'')) twoDevices = Inr deviceA
   \<and> resolve exampleLowerCase (Some (str ''10.0.0.2'')) twoDevices = Inr deviceB
   \<and> resolve exampleLowerCase None twoDevices
       = Inl (AmbiguousSelection [str ''Kitchen'', str ''10.0.0.2''])"
proof -
  note wf = wellFormed_twoDevices
  have a: "resolve exampleLowerCase (Some (str ''KITCHEN'')) twoDevices = Inr deviceA"
    using resolve_cases [OF wf, of "Some (str ''KITCHEN'')"]
    by (simp add: twoDevices_def deviceA_def deviceB_def lower_examples distinct_examples)
  have b: "resolve exampleLowerCase (Some (str ''10.0.0.2'')) twoDevices = Inr deviceB"
    using resolve_cases [OF wf, of "Some (str ''10.0.0.2'')"]
    by (simp add: twoDevices_def deviceA_def deviceB_def lower_examples distinct_examples)
  have c: "resolve exampleLowerCase None twoDevices
      = Inl (AmbiguousSelection [str ''Kitchen'', str ''10.0.0.2''])"
    using resolve_cases [OF wf, of None]
    by (simp add: twoDevices_def deviceA_def deviceB_def falsy_def)
  from wf a b c show ?thesis by simp
qed




lemma set_delete: "set (AList.delete key xs) = {p \<in> set xs. fst p \<noteq> key}"
  by (auto simp: AList.delete_eq)

lemma entriesOk_delete: "entriesOk lc n xs \<Longrightarrow> entriesOk lc n (AList.delete key xs)"
  by (auto simp: entriesOk_def list_all_iff distinct_delete set_delete AList.delete_eq
      distinct_map_filter)


lemma wellFormed_new: "wellFormed lc newDeviceManager"
  by (simp add: wellFormed_def newDeviceManager_def entriesOk_def)


lemma wellFormed_remove: "wellFormed lc m \<Longrightarrow> wellFormed lc (snd (remove lc alias' m))"
  by (simp add: wellFormed_def remove_def entriesOk_delete)









lemma visit_fail: "visit lc None visited entry rest = (visited @ [entry], rest)"
  by (simp add: visit_def)

lemma visit_keep:
  assumes "\<not> upgrades lc info (visited @ entry # rest) (snd entry)"
  shows "visit lc (Some info) visited entry rest
           = (visited @ [(fst entry, fetchedDevice info (snd entry))], rest)"
proof -
  have "map_of (visited @ (fst entry, fetchedDevice info (snd entry)) # rest) k = None
      \<longleftrightarrow> k \<notin> fst ` set (visited @ entry # rest)" for k
    by (simp add: map_of_eq_None_iff image_Un)
  with assms show ?thesis
    by (auto simp: visit_def Let_def upgrades_def fetchedDevice_def)
qed

lemma visit_upgrade:
  assumes ok: "entriesOk lc n (visited @ entry # rest)"
    and up: "upgrades lc info (visited @ entry # rest) (snd entry)"
  shows "visit lc (Some info) visited entry rest
           = (visited, rest @ [(lc (info_name info),
                                (fetchedDevice info (snd entry))\<lparr>alias := info_name info\<rparr>)])"
    and "info_name info \<noteq> ip (snd entry)"
    and "fst entry = lc (ip (snd entry))"
    and "fst entry \<notin> fst ` set visited \<union> fst ` set rest"
proof -
  obtain key d where e: "entry = (key, d)" by (cases entry)
  from up have al: "alias d = ip d" and nm: "info_name info \<noteq> []"
    and fresh: "lc (info_name info) \<notin> fst ` set (visited @ entry # rest)"
    by (simp_all add: upgrades_def e)
  have key: "key = lc (ip d)"
    using entriesOk_key [OF ok, of key d] al by (simp add: e)
  show "fst entry = lc (ip (snd entry))" by (simp add: e key)
  from fresh have "lc (info_name info) \<noteq> key" by (auto simp: e)
  then show "info_name info \<noteq> ip (snd entry)" using key by (auto simp: e)
  from ok have dist: "distinct (map fst (visited @ entry # rest))" by (simp add: entriesOk_def)
  then have nv: "key \<notin> fst ` set visited" and nr: "key \<notin> fst ` set rest"
    by (auto simp: e)
  then show "fst entry \<notin> fst ` set visited \<union> fst ` set rest" by (simp add: e)
  have none: "map_of (visited @ (key, fetchedDevice info d) # rest) (lc (info_name info)) = None"
    using fresh by (simp add: map_of_eq_None_iff image_Un e)
  have dv: "AList.delete (lc (ip d)) (visited @ [(key, x)]) = visited" for x
    using nv by (simp add: key [symmetric] AList.delete_eq filter_id_conv) force
  have dr: "AList.delete (lc (ip d)) rest = rest"
    using nr by (simp add: key [symmetric])
  show "visit lc (Some info) visited entry rest
           = (visited, rest @ [(lc (info_name info),
                                (fetchedDevice info (snd entry))\<lparr>alias := info_name info\<rparr>)])"
    using al nm none dv dr
    by (simp add: visit_def Let_def e fetchedDevice_def)
qed

lemma keeps_iff:
  "keeps e xs \<longleftrightarrow> (\<exists>d'. (fst e, d') \<in> set xs \<and> alias d' = alias (snd e) \<and> ip d' = ip (snd e)
      \<and> authToken d' = authToken (snd e) \<and> client d' = client (snd e))"
  by (auto simp: keeps_def list_ex_iff)

lemma keeps_self: "e \<in> set xs \<Longrightarrow> keeps e xs"
  by (cases e) (auto simp: keeps_iff)

lemma keeps_trans:
  assumes "keeps e xs" "\<forall>x\<in>set xs. alias (snd x) \<noteq> ip (snd x) \<longrightarrow> keeps x ys"
    and "alias (snd e) \<noteq> ip (snd e)"
  shows "keeps e ys"
proof -
  from assms(1) obtain d' where d: "(fst e, d') \<in> set xs" "alias d' = alias (snd e)"
      "ip d' = ip (snd e)" "authToken d' = authToken (snd e)" "client d' = client (snd e)"
    by (auto simp: keeps_iff)
  with assms(2,3) have "keeps (fst e, d') ys" by force
  with d show ?thesis by (auto simp: keeps_iff)
qed

lemma entriesOk_fetched:
  assumes "entriesOk lc n (visited @ (key, d) # rest)"
  shows "entriesOk lc n (visited @ (key, fetchedDevice info d) # rest)"
  using assms by (auto simp: entriesOk_def fetchedDevice_def)

lemma entriesOk_moved:
  assumes "entriesOk lc n (visited @ (key, d) # rest)"
    and "lc nm \<notin> fst ` set (visited @ (key, d) # rest)"
  shows "entriesOk lc n (visited @ rest @ [(lc nm, (fetchedDevice info d)\<lparr>alias := nm\<rparr>)])"
  using assms by (auto simp: entriesOk_def fetchedDevice_def)

lemma visit_step:
  assumes ok: "entriesOk lc n (visited @ entry # rest)"
  shows "entriesOk lc n (fst (visit lc fetched visited entry rest) @ snd (visit lc fetched visited entry rest))"
    and "\<forall>x\<in>set (visited @ entry # rest). alias (snd x) \<noteq> ip (snd x)
           \<longrightarrow> keeps x (fst (visit lc fetched visited entry rest) @ snd (visit lc fetched visited entry rest))"
    and "set visited \<subseteq> set (fst (visit lc fetched visited entry rest))"
    and "\<exists>moved. snd (visit lc fetched visited entry rest) = rest @ moved"
proof -
  obtain key d where e: "entry = (key, d)" by (cases entry)
  let ?v = "fst (visit lc fetched visited entry rest)"
  let ?t = "snd (visit lc fetched visited entry rest)"
  let ?out = "?v @ ?t"
  have "entriesOk lc n ?out
      \<and> (\<forall>x\<in>set (visited @ entry # rest). alias (snd x) \<noteq> ip (snd x) \<longrightarrow> keeps x ?out)
      \<and> set visited \<subseteq> set ?v \<and> (\<exists>moved. ?t = rest @ moved)"
  proof (cases fetched)
    case None
    then have v: "?v = visited @ [entry]" "?t = rest" by (simp_all add: visit_fail)
    then have "?out = visited @ entry # rest" by simp
    with ok v show ?thesis by (auto intro: keeps_self)
  next
    case (Some info)
    show ?thesis
    proof (cases "upgrades lc info (visited @ entry # rest) (snd entry)")
      case False
      have v: "?v = visited @ [(key, fetchedDevice info d)]" "?t = rest"
        using visit_keep [OF False] by (simp_all add: Some e)
      then have out: "?out = visited @ (key, fetchedDevice info d) # rest" by simp
      have "entriesOk lc n (visited @ (key, fetchedDevice info d) # rest)"
        using ok by (simp add: e entriesOk_fetched)
      moreover have "keeps x (visited @ (key, fetchedDevice info d) # rest)"
        if "x \<in> set (visited @ entry # rest)" for x
      proof (cases "x = entry")
        case True
        then show ?thesis by (auto simp: keeps_iff e fetchedDevice_def)
      next
        case False
        with that have "x \<in> set (visited @ (key, fetchedDevice info d) # rest)" by auto
        then show ?thesis by (rule keeps_self)
      qed
      ultimately show ?thesis unfolding out using v by auto
    next
      case True
      define d2 where "d2 = (fetchedDevice info d)\<lparr>alias := info_name info\<rparr>"
      have v: "?v = visited" "?t = rest @ [(lc (info_name info), d2)]"
        using visit_upgrade(1) [OF ok True] by (simp_all add: Some e d2_def)
      then have out: "?out = visited @ rest @ [(lc (info_name info), d2)]" by simp
      from True have al: "alias d = ip d"
        and fresh: "lc (info_name info) \<notin> fst ` set (visited @ (key, d) # rest)"
        by (simp_all add: upgrades_def e)
      have "entriesOk lc n (visited @ rest @ [(lc (info_name info), d2)])"
        unfolding d2_def using ok fresh by (intro entriesOk_moved) (auto simp: e)
      moreover have "keeps x (visited @ rest @ [(lc (info_name info), d2)])"
        if "x \<in> set (visited @ entry # rest)" "alias (snd x) \<noteq> ip (snd x)" for x
      proof -
        from that al have "x \<noteq> entry" by (auto simp: e)
        with that(1) have "x \<in> set (visited @ rest @ [(lc (info_name info), d2)])" by auto
        then show ?thesis by (rule keeps_self)
      qed
      ultimately show ?thesis unfolding out using v by auto
    qed
  qed
  then show "entriesOk lc n ?out"
    and "\<forall>x\<in>set (visited @ entry # rest). alias (snd x) \<noteq> ip (snd x) \<longrightarrow> keeps x ?out"
    and "set visited \<subseteq> set ?v" and "\<exists>moved. ?t = rest @ moved"
    by blast+
qed

lemma refreshLoop_ok:
  "entriesOk lc n (visited @ todo) \<Longrightarrow>
     entriesOk lc n (refreshLoop lc hw k visited todo)
     \<and> (\<forall>x\<in>set (visited @ todo). alias (snd x) \<noteq> ip (snd x)
           \<longrightarrow> keeps x (refreshLoop lc hw k visited todo))
     \<and> set visited \<subseteq> set (refreshLoop lc hw k visited todo)"
proof (induction lc hw k visited todo rule: refreshLoop.induct)
  case (1 lc hw k visited)
  then show ?case by (auto intro: keeps_self)
next
  case (2 lc hw k visited entry rest)
  let ?v = "fst (visit lc (hw k (snd entry)) visited entry rest)"
  let ?t = "snd (visit lc (hw k (snd entry)) visited entry rest)"
  from visit_step [OF "2.prems"]
  have ok': "entriesOk lc n (?v @ ?t)"
    and keep: "\<forall>x\<in>set (visited @ entry # rest). alias (snd x) \<noteq> ip (snd x) \<longrightarrow> keeps x (?v @ ?t)"
    and sub: "set visited \<subseteq> set ?v"
    by blast+
  from "2.IH" [OF ok']
  have ih1: "entriesOk lc n (refreshLoop lc hw (Suc k) ?v ?t)"
    and ih2: "\<forall>x\<in>set (?v @ ?t). alias (snd x) \<noteq> ip (snd x) \<longrightarrow> keeps x (refreshLoop lc hw (Suc k) ?v ?t)"
    and ih3: "set ?v \<subseteq> set (refreshLoop lc hw (Suc k) ?v ?t)"
    by blast+
  have "keeps x (refreshLoop lc hw (Suc k) ?v ?t)"
    if "x \<in> set (visited @ entry # rest)" "alias (snd x) \<noteq> ip (snd x)" for x
    using keeps_trans [OF _ ih2 that(2)] keep that by blast
  with ih1 sub ih3 show ?case by auto
qed

lemma refreshLoop_unreachable:
  "\<forall>n d. hw n d = None \<Longrightarrow> refreshLoop lc hw k visited todo = visited @ todo"
  by (induction todo arbitrary: k visited) (simp_all add: visit_fail)

lemma loopState_loop:
  "refreshLoop lc hw n (fst (loopState lc hw es n)) (snd (loopState lc hw es n))
     = refreshLoop lc hw 0 [] es"
proof (induction n)
  case 0
  then show ?case by simp
next
  case (Suc n)
  obtain visited todo where s: "loopState lc hw es n = (visited, todo)"
    by (cases "loopState lc hw es n")
  show ?case
  proof (cases todo)
    case Nil
    with Suc s show ?thesis by simp
  next
    case (Cons entry rest)
    with Suc s show ?thesis by simp
  qed
qed

lemma loopState_ok:
  assumes "entriesOk lc c es"
  shows "entriesOk lc c (fst (loopState lc hw es n) @ snd (loopState lc hw es n))"
proof (induction n)
  case 0
  with assms show ?case by simp
next
  case (Suc n)
  obtain visited todo where s: "loopState lc hw es n = (visited, todo)"
    by (cases "loopState lc hw es n")
  show ?case
  proof (cases todo)
    case Nil
    with Suc s show ?thesis by simp
  next
    case (Cons entry rest)
    with Suc s have "entriesOk lc c (visited @ entry # rest)" by simp
    from visit_step(1) [OF this, of "hw n (snd entry)"] s Cons show ?thesis by simp
  qed
qed

lemma loopState_drop:
  assumes "entriesOk lc c es" "i \<le> length es"
  shows "\<exists>moved. snd (loopState lc hw es i) = drop i es @ moved"
  using assms(2)
proof (induction i)
  case 0
  then show ?case by simp
next
  case (Suc i)
  then obtain moved where m: "snd (loopState lc hw es i) = drop i es @ moved" by auto
  from Suc.prems have d: "drop i es = es ! i # drop (Suc i) es"
    by (simp add: Cons_nth_drop_Suc)
  obtain visited where s: "loopState lc hw es i = (visited, es ! i # (drop (Suc i) es @ moved))"
    using m d by (cases "loopState lc hw es i") simp
  have "entriesOk lc c (visited @ es ! i # (drop (Suc i) es @ moved))"
    using loopState_ok [OF assms(1), of hw i] s by simp
  from visit_step(4) [OF this, of "hw i (snd (es ! i))"]
  obtain moved' where "snd (visit lc (hw i (snd (es ! i))) visited (es ! i) (drop (Suc i) es @ moved))
      = (drop (Suc i) es @ moved) @ moved'"
    by blast
  then show ?case by (auto simp: s)
qed

text \<open>
  Claim C7. \<open>refreshNames\<close> returns, and returns a registry of the same kind; when every fetch
  fails it returns the registry as it was. The \<open>i\<close>-th fetch is for the \<open>i\<close>-th entry of
  the registry. In the state in which the loop fetches for an entry, a failed fetch leaves
  the entry in the returned registry as it is. After a successful fetch, alias and key are
  rewritten exactly when the alias is the address, the reported name is not empty and its
  lower-case form is no key of the registry at that moment. In that case the entry leaves
  the key of its address and is appended under the lower-case name; the returned registry
  holds the device under that key with the name as its alias, which differs from its
  address, and whatever it holds under the old key is another device. Otherwise the
  returned registry holds the entry under its key with its alias, name and model updated.
  An entry whose alias differs from its address keeps key and alias through this and any
  later run, so no later run rewrites a rewritten entry again.
\<close>

theorem refreshNames_upgrade:
  assumes wf: "wellFormed toLowerCase m"
  shows "wellFormed toLowerCase (refreshNames toLowerCase hw m)
    \<and> ((\<forall>n d. hw n d = None) \<longrightarrow> refreshNames toLowerCase hw m = m)
    \<and> (\<forall>i. i < length (devices m) \<longrightarrow>
          (\<exists>visited rest. loopState toLowerCase hw (devices m) i = (visited, devices m ! i # rest)))
    \<and> (\<forall>n visited key d rest.
          loopState toLowerCase hw (devices m) n = (visited, (key, d) # rest) \<longrightarrow>
          (hw n d = None \<longrightarrow> (key, d) \<in> set (devices (refreshNames toLowerCase hw m)))
        \<and> (\<forall>info. hw n d = Some info \<longrightarrow>
              (upgrades toLowerCase info (visited @ (key, d) # rest) d \<longrightarrow>
                  loopState toLowerCase hw (devices m) (Suc n)
                    = (visited, rest @ [(toLowerCase (info_name info),
                                         (fetchedDevice info d)\<lparr>alias := info_name info\<rparr>)])
                \<and> key = toLowerCase (ip d)
                \<and> key \<notin> fst ` set visited \<union> fst ` set rest
                \<and> info_name info \<noteq> ip d
                \<and> keeps (toLowerCase (info_name info),
                          (fetchedDevice info d)\<lparr>alias := info_name info\<rparr>)
                     (devices (refreshNames toLowerCase hw m))
                \<and> (\<forall>other. (key, other) \<in> set (devices (refreshNames toLowerCase hw m))
                      \<longrightarrow> client other \<noteq> client d))
            \<and> (\<not> upgrades toLowerCase info (visited @ (key, d) # rest) d \<longrightarrow>
                  (key, fetchedDevice info d) \<in> set (devices (refreshNames toLowerCase hw m)))))
    \<and> (\<forall>key d. (key, d) \<in> set (devices m) \<longrightarrow> alias d \<noteq> ip d \<longrightarrow>
          keeps (key, d) (devices (refreshNames toLowerCase hw m)))
    \<and> (\<forall>hw' key d. (key, d) \<in> set (devices (refreshNames toLowerCase hw m)) \<longrightarrow> alias d \<noteq> ip d \<longrightarrow>
          keeps (key, d) (devices (refreshNames toLowerCase hw' (refreshNames toLowerCase hw m))))"
proof -
  let ?lc = toLowerCase
  let ?F = "devices (refreshNames ?lc hw m)"
  have ok: "entriesOk ?lc (clients m) (devices m)" using wf by (simp add: wellFormed_def)
  then have ok0: "entriesOk ?lc (clients m) ([] @ devices m)" by simp
  note loop = refreshLoop_ok [OF ok0, of hw 0]
  have F: "?F = refreshLoop ?lc hw 0 [] (devices m)" by (simp add: refreshNames_def)
  have okF: "entriesOk ?lc (clients m) ?F" using loop by (simp add: F)
  have wfF: "wellFormed ?lc (refreshNames ?lc hw m)"
    using okF by (simp add: wellFormed_def refreshNames_def)
  have unreach: "refreshNames ?lc hw m = m" if "\<forall>n d. hw n d = None"
    using refreshLoop_unreachable [OF that, of ?lc 0 "[]" "devices m"]
    by (simp add: refreshNames_def)
  have reach: "\<exists>visited rest. loopState ?lc hw (devices m) i = (visited, devices m ! i # rest)"
    if "i < length (devices m)" for i
  proof -
    from loopState_drop [OF ok, of i hw] that
    obtain moved where "snd (loopState ?lc hw (devices m) i) = drop i (devices m) @ moved"
      by auto
    with that show ?thesis
      by (cases "loopState ?lc hw (devices m) i") (simp add: Cons_nth_drop_Suc [symmetric])
  qed
  have first: "keeps (key, d) ?F" if "(key, d) \<in> set (devices m)" "alias d \<noteq> ip d" for key d
    using loop that by (force simp: F)
  have later: "keeps (key, d) (devices (refreshNames ?lc hw' (refreshNames ?lc hw m)))"
    if "(key, d) \<in> set ?F" "alias d \<noteq> ip d" for hw' key d
  proof -
    from okF have "entriesOk ?lc (clients m) ([] @ ?F)" by simp
    from refreshLoop_ok [OF this, of hw' 0] that show ?thesis
      by (force simp: refreshNames_def)
  qed
  have step: "(hw n d = None \<longrightarrow> (key, d) \<in> set ?F)
        \<and> (\<forall>info. hw n d = Some info \<longrightarrow>
              (upgrades ?lc info (visited @ (key, d) # rest) d \<longrightarrow>
                  loopState ?lc hw (devices m) (Suc n)
                    = (visited, rest @ [(?lc (info_name info),
                                         (fetchedDevice info d)\<lparr>alias := info_name info\<rparr>)])
                \<and> key = ?lc (ip d)
                \<and> key \<notin> fst ` set visited \<union> fst ` set rest
                \<and> info_name info \<noteq> ip d
                \<and> keeps (?lc (info_name info), (fetchedDevice info d)\<lparr>alias := info_name info\<rparr>) ?F
                \<and> (\<forall>other. (key, other) \<in> set ?F \<longrightarrow> client other \<noteq> client d))
            \<and> (\<not> upgrades ?lc info (visited @ (key, d) # rest) d \<longrightarrow>
                  (key, fetchedDevice info d) \<in> set ?F))"
    if s: "loopState ?lc hw (devices m) n = (visited, (key, d) # rest)" for n visited key d rest
  proof -
    let ?v = "fst (visit ?lc (hw n d) visited (key, d) rest)"
    let ?t = "snd (visit ?lc (hw n d) visited (key, d) rest)"
    have okn: "entriesOk ?lc (clients m) (visited @ (key, d) # rest)"
      using loopState_ok [OF ok, of hw n] s by simp
    have next_state: "loopState ?lc hw (devices m) (Suc n) = visit ?lc (hw n d) visited (key, d) rest"
      by (simp add: s)
    have Fn: "?F = refreshLoop ?lc hw (Suc n) ?v ?t"
      using loopState_loop [of ?lc hw n "devices m"] by (simp add: F s)
    have ok': "entriesOk ?lc (clients m) (?v @ ?t)"
      by (rule visit_step(1) [OF okn])
    note rest_loop = refreshLoop_ok [OF ok', of hw "Suc n", folded Fn]
    have failed: "(key, d) \<in> set ?F" if "hw n d = None"
    proof -
      have "(key, d) \<in> set ?v" by (simp add: that visit_fail)
      with rest_loop show ?thesis by blast
    qed
    have kept: "(key, fetchedDevice info d) \<in> set ?F"
      if "hw n d = Some info" "\<not> upgrades ?lc info (visited @ (key, d) # rest) d" for info
    proof -
      have "visit ?lc (Some info) visited (key, d) rest
          = (visited @ [(key, fetchedDevice info d)], rest)"
        using visit_keep [of ?lc info visited "(key, d)" rest] that(2) by simp
      then have "(key, fetchedDevice info d) \<in> set ?v" by (simp add: that(1))
      with rest_loop show ?thesis by blast
    qed
    have moved: "loopState ?lc hw (devices m) (Suc n)
                    = (visited, rest @ [(?lc (info_name info),
                                         (fetchedDevice info d)\<lparr>alias := info_name info\<rparr>)])
                \<and> key = ?lc (ip d)
                \<and> key \<notin> fst ` set visited \<union> fst ` set rest
                \<and> info_name info \<noteq> ip d
                \<and> keeps (?lc (info_name info), (fetchedDevice info d)\<lparr>alias := info_name info\<rparr>) ?F
                \<and> (\<forall>other. (key, other) \<in> set ?F \<longrightarrow> client other \<noteq> client d)"
      if got: "hw n d = Some info" and up: "upgrades ?lc info (visited @ (key, d) # rest) d" for info
    proof -
      define d2 where "d2 = (fetchedDevice info d)\<lparr>alias := info_name info\<rparr>"
      from up have up': "upgrades ?lc info (visited @ (key, d) # rest) (snd (key, d))" by simp
      note vu = visit_upgrade [OF okn up']
      have v: "visit ?lc (hw n d) visited (key, d) rest = (visited, rest @ [(?lc (info_name info), d2)])"
        using vu(1) by (simp add: got d2_def)
      have a: "loopState ?lc hw (devices m) (Suc n) = (visited, rest @ [(?lc (info_name info), d2)])"
        unfolding next_state by (rule v)
      have b: "key = ?lc (ip d)" using vu(3) by simp
      have c: "key \<notin> fst ` set visited \<union> fst ` set rest" using vu(4) by simp
      have e: "info_name info \<noteq> ip d" using vu(2) by simp
      have "(?lc (info_name info), d2) \<in> set (?v @ ?t)" by (simp add: v)
      moreover have "alias (snd (?lc (info_name info), d2)) \<noteq> ip (snd (?lc (info_name info), d2))"
        using e by (simp add: d2_def fetchedDevice_def)
      ultimately have k: "keeps (?lc (info_name info), d2) ?F"
        using rest_loop by blast
      have g: "client other \<noteq> client d" if "(key, other) \<in> set ?F" for other
      proof
        assume same: "client other = client d"
        from k obtain d' where d': "(?lc (info_name info), d') \<in> set ?F" "client d' = client d2"
          by (auto simp: keeps_iff)
        have "client d2 = client d" by (simp add: d2_def fetchedDevice_def)
        with entriesOk_client [OF okF that d'(1)] same d'(2) have "key = ?lc (info_name info)"
          by simp
        moreover from up have "?lc (info_name info) \<noteq> key" by (auto simp: upgrades_def)
        ultimately show False by simp
      qed
      from a b c e k g show ?thesis unfolding d2_def by blast
    qed
    from failed kept moved show ?thesis by blast
  qed
  from wfF unreach reach step first later show ?thesis by blast
qed

lemma refresh_example:
  "devices (refreshNames exampleLowerCase answersShapes twoDevices)
     = [(str ''kitchen'', deviceA\<lparr>name := Some (str ''Shapes''), model := Some (str ''NL42'')\<rparr>),
        (str ''shapes'', deviceB\<lparr>alias := str ''Shapes'', name := Some (str ''Shapes''),
                                  model := Some (str ''NL42'')\<rparr>)]"
  by (simp add: refreshNames_def twoDevices_def visit_def answersShapes_def exampleInfo_def
      deviceA_def deviceB_def Let_def lower_examples distinct_examples)

theorem refreshNames_upgrade_witness:
  "wellFormed exampleLowerCase twoDevices
   \<and> loopState exampleLowerCase answersShapes (devices twoDevices) 1
       = ([(str ''kitchen'', fetchedDevice exampleInfo deviceA)], [(str ''10.0.0.2'', deviceB)])
   \<and> answersShapes 1 deviceB = Some exampleInfo
   \<and> upgrades exampleLowerCase exampleInfo
       ([(str ''kitchen'', fetchedDevice exampleInfo deviceA)] @ (str ''10.0.0.2'', deviceB) # [])
       deviceB
   \<and> loopState exampleLowerCase answersShapes (devices twoDevices) 2
       = ([(str ''kitchen'', fetchedDevice exampleInfo deviceA)],
          [(str ''shapes'', (fetchedDevice exampleInfo deviceB)\<lparr>alias := str ''Shapes''\<rparr>)])
   \<and> keeps (str ''shapes'', (fetchedDevice exampleInfo deviceB)\<lparr>alias := str ''Shapes''\<rparr>)
        (devices (refreshNames exampleLowerCase answersShapes twoDevices))
   \<and> map_of (devices (refreshNames exampleLowerCase answersShapes twoDevices)) (str ''10.0.0.2'')
       = None
   \<and> map_of (devices (refreshNames exampleLowerCase answersShapes twoDevices)) (str ''shapes'')
       = Some (deviceB\<lparr>alias := str ''Shapes'', name := Some (str ''Shapes''),
                        model := Some (str ''NL42'')\<rparr>)
   \<and> keeps (str ''kitchen'', deviceA)
        (devices (refreshNames exampleLowerCase answersShapes twoDevices))"
proof -
  note inst = refreshNames_upgrade [OF wellFormed_twoDevices, of answersShapes]
  let ?F = "devices (refreshNames exampleLowerCase answersShapes twoDevices)"
  have s1: "loopState exampleLowerCase answersShapes (devices twoDevices) 1
       = ([(str ''kitchen'', fetchedDevice exampleInfo deviceA)], [(str ''10.0.0.2'', deviceB)])"
    by (simp add: twoDevices_def visit_def answersShapes_def deviceA_def fetchedDevice_def
        Let_def distinct_examples)
  have got: "answersShapes 1 deviceB = Some exampleInfo" by (simp add: answersShapes_def)
  have up: "upgrades exampleLowerCase exampleInfo
       ([(str ''kitchen'', fetchedDevice exampleInfo deviceA)] @ (str ''10.0.0.2'', deviceB) # [])
       deviceB"
    by (simp add: upgrades_def deviceB_def exampleInfo_def lower_examples distinct_examples)
  have nm: "info_name exampleInfo = str ''Shapes''" by (simp add: exampleInfo_def)
  from inst s1 got up
  have "loopState exampleLowerCase answersShapes (devices twoDevices) (Suc 1)
          = ([(str ''kitchen'', fetchedDevice exampleInfo deviceA)],
             [] @ [(exampleLowerCase (info_name exampleInfo),
                    (fetchedDevice exampleInfo deviceB)\<lparr>alias := info_name exampleInfo\<rparr>)])
      \<and> keeps (exampleLowerCase (info_name exampleInfo),
                (fetchedDevice exampleInfo deviceB)\<lparr>alias := info_name exampleInfo\<rparr>) ?F"
    by blast
  then have a: "loopState exampleLowerCase answersShapes (devices twoDevices) 2
       = ([(str ''kitchen'', fetchedDevice exampleInfo deviceA)],
          [(str ''shapes'', (fetchedDevice exampleInfo deviceB)\<lparr>alias := str ''Shapes''\<rparr>)])"
    and b: "keeps (str ''shapes'', (fetchedDevice exampleInfo deviceB)\<lparr>alias := str ''Shapes''\<rparr>) ?F"
    by (simp_all add: nm lower_examples numeral_2_eq_2)
  have "(str ''kitchen'', deviceA) \<in> set (devices twoDevices)" "alias deviceA \<noteq> ip deviceA"
    by (simp_all add: twoDevices_def deviceA_def distinct_examples)
  with inst have c: "keeps (str ''kitchen'', deviceA) ?F" by blast
  have d: "map_of ?F (str ''10.0.0.2'') = None"
    "map_of ?F (str ''shapes'') = Some (deviceB\<lparr>alias := str ''Shapes'', name := Some (str ''Shapes''),
                        model := Some (str ''NL42'')\<rparr>)"
    by (simp_all add: refresh_example distinct_examples)
  from wellFormed_twoDevices s1 got up a b c d show ?thesis by simp
qed

lemma v1_entries2_eq: "v1_entries2 panels offset = v1_entries panels offset"
proof (induction panels arbitrary: offset)
  case Nil
  show ?case by (rule ext) simp
next
  case (Cons e panels)
  obtain pid color where e: "e = (pid, color)" by (cases e)
  have ih: "v1_entries2 panels (offset + 7) = v1_entries panels (offset + 7)" by (rule Cons.IH)
  show ?case by (rule ext) (simp only: e v1_entries2.simps v1_entries.simps ih)
qed

lemma v2_entries2_eq: "v2_entries2 panels offset = v2_entries panels offset"
proof (induction panels arbitrary: offset)
  case Nil
  show ?case by (rule ext) simp
next
  case (Cons e panels)
  obtain pid color where e: "e = (pid, color)" by (cases e)
  have ih: "v2_entries2 panels (offset + 8) = v2_entries panels (offset + 8)" by (rule Cons.IH)
  show ?case by (rule ext) (simp only: e v2_entries2.simps v2_entries.simps ih)
qed

text \<open>
  Claim C9. The packet builders and the color conversions of the second client file are
  the functions of the first: \<open>buildV1Packet\<close>, \<open>buildV2Packet\<close>, \<open>hsbToRgb\<close> and
  \<open>rgbToHsb\<close> of the two files return the same result on every input.
\<close>

theorem second_file_equal:
  "buildV1Packet2 = buildV1Packet \<and> buildV2Packet2 = buildV2Packet
   \<and> hsbToRgb2 = hsbToRgb \<and> rgbToHsb2 = rgbToHsb"
proof (intro conjI ext)
  fix panelColors :: "(int \<times> RGBColor) list"
  show "buildV1Packet2 panelColors = buildV1Packet panelColors"
    unfolding buildV1Packet2_def buildV1Packet_def v1_entries2_eq ..
  show "buildV2Packet2 panelColors = buildV2Packet panelColors"
    unfolding buildV2Packet2_def buildV2Packet_def v2_entries2_eq ..
next
  fix color :: HSBColor
  show "hsbToRgb2 color = hsbToRgb color"
    unfolding hsbToRgb2_def hsbToRgb_def ..
next
  fix color :: RGBColor
  show "rgbToHsb2 color = rgbToHsb color"
    unfolding rgbToHsb2_def rgbToHsb_def ..
qed

theorem second_file_equal_witness:
  "buildV1Packet2 onePanel = buildV1Packet onePanel
   \<and> buildV2Packet2 twoPanels = buildV2Packet twoPanels
   \<and> hsbToRgb2 \<lparr>hue = 200, saturation = 80, brightness = 60\<rparr>
        = hsbToRgb \<lparr>hue = 200, saturation = 80, brightness = 60\<rparr>
   \<and> rgbToHsb2 red = rgbToHsb red"
  using second_file_equal by simp

end
